theory Spec2Isabelle
  imports Main "HOL-Library.Word"
begin

unbundle bit_operations_syntax

section \<open>Fracture keyboard firmware: the inter-board protocol core\<close>

text \<open>
  A shallow embedding of the RS-485 protocol code of \<^verbatim>\<open>Firmware/Fracture_Keyboard.ino\<close>:
  the frame serialiser \<^verbatim>\<open>rs485SendPacket\<close>, the receive state machine
  \<^verbatim>\<open>processRs485\<close> with its five packet handlers, the node registry
  \<^verbatim>\<open>registerNode\<close>, the chain discovery \<^verbatim>\<open>startDiscovery\<close> and the root's
  ping cycle in \<^verbatim>\<open>loop\<close>. The globals of the sketch are the fields of one record
  that every function takes and returns. \<^verbatim>\<open>uint8_t\<close> and \<^verbatim>\<open>uint32_t\<close> are
  8-bit and 32-bit words, so every addition wraps as it does on the board; C computes
  in \<^verbatim>\<open>int\<close> and truncates on assignment, which gives the same 8-bit value.

  What the code reads from outside (the clock \<^verbatim>\<open>millis()\<close>, the left-neighbour pin,
  the bytes the UART holds) is an argument of the function that reads it. What it
  writes to the outside (bytes on the bus, the right-neighbour pin, the calls into
  the ripple, MIDI and synth code) is appended to the field \<open>out\<close>. Delays, pin modes and
  the transmit-enable pin around each frame are left out.
\<close>

type_synonym u8 = "8 word"
type_synonym u32 = "32 word"

subsection \<open>Constants\<close>

definition GLOBAL_BASE_NOTE :: u8 where "GLOBAL_BASE_NOTE = 48"
definition BOARD_NOTE_SPAN :: u8 where "BOARD_NOTE_SPAN = 24"
definition RS485_MAX_NODES :: u8 where "RS485_MAX_NODES = 16"
definition RS485_ANNOUNCE_MSG :: u8 where "RS485_ANNOUNCE_MSG = 0x01"
definition RS485_NOTE_MSG :: u8 where "RS485_NOTE_MSG = 0x02"
definition RS485_PING_MSG :: u8 where "RS485_PING_MSG = 0x03"
definition RS485_PING_REPLY_MSG :: u8 where "RS485_PING_REPLY_MSG = 0x04"
definition RS485_REMAP_REQUEST_MSG :: u8 where "RS485_REMAP_REQUEST_MSG = 0x05"
definition DISCOVERY_MAX_MS :: u32 where "DISCOVERY_MAX_MS = 1000"
definition PING_INTERVAL_MS :: u32 where "PING_INTERVAL_MS = 1000"
definition PING_TIMEOUT_MS :: u32 where "PING_TIMEOUT_MS = 200"
definition TOTAL_KEYS :: nat where "TOTAL_KEYS = 32"

text \<open>
  \<^verbatim>\<open>keyToNote[NUM_MAIN_KEYS]\<close>: the semitone offset of each of the 24 main keys, black
  keys first.
\<close>

definition keyToNote :: "u8 list" where
  "keyToNote = [1, 3, 6, 8, 10, 13, 15, 18, 20, 22,
                0, 2, 4, 5, 7, 9, 11, 12, 14, 16, 17, 19, 21, 23]"

subsection \<open>Types\<close>

record NodeInfo =
  nodeId :: u32
  boardIndex :: u8

text \<open>
  \<^verbatim>\<open>struct NodeList { uint8_t count; NodeInfo nodes[16]; }\<close>: the array is a list of
  16 slots; the slots from \<open>count\<close> on hold whatever an earlier run left there.
\<close>

record NodeList =
  count :: u8
  nodes :: "NodeInfo list"

text \<open>\<^verbatim>\<open>struct RxState\<close>; \<open>buf\<close> is the 32-byte staging array.\<close>

record RxState =
  state :: u8
  len :: u8
  type :: u8
  buf :: "u8 list"
  pos :: u8
  checksum :: u8

datatype level = LOW | HIGH

text \<open>
  What the board does to its surroundings, in the order it does it: a byte written to
  the RS-485 bus, a level written to the right-neighbour pin, and the calls into the
  LED ripple, the USB MIDI sink and the synth (\<^verbatim>\<open>startRipple\<close>, \<^verbatim>\<open>midiSendNoteOn\<close>,
  \<^verbatim>\<open>midiSendNoteOff\<close>, \<^verbatim>\<open>synthNoteOn\<close>, \<^verbatim>\<open>synthNoteOff\<close>), whose own state (floats,
  voices, the USB stack) this development does not carry.
\<close>

datatype effect =
  Wire u8
  | NeighborRight level
  | StartRipple u8 u8
  | MidiSendNoteOn u8 u8
  | MidiSendNoteOff u8 u8
  | SynthNoteOn u8 u8
  | SynthNoteOff u8

record board =
  myNodeId :: u32
  nodeList :: NodeList
  myBoardIndex :: u8
  totalBoards :: u8
  discoveryDone :: bool
  remapRequested :: bool
  isRemapping :: bool
  networkHealthy :: bool
  boardBaseNote :: u8
  hasLeftNeighbor :: bool
  rx :: RxState
  keyBaseVelocity :: "u8 list"
  pingSequence :: u8
  awaitingPingReplies :: bool
  pingStartMs :: u32
  lastPingMs :: u32
  pingReceived :: "bool list"
  out :: "effect list"

text \<open>
  The live part of the registry: the first \<open>count\<close> slots. Every loop over the registry
  runs over these. \<open>count\<close> starts at 0 and grows only in \<^verbatim>\<open>registerNode\<close>, under the
  test \<open>count < 16\<close>, so the loops stay inside the array.
\<close>

definition entries :: "NodeList \<Rightarrow> NodeInfo list" where
  "entries nl = take (unat (count nl)) (nodes nl)"

subsection \<open>Packet transport: sending\<close>

text \<open>
  The bytes one call of \<^verbatim>\<open>rs485SendPacket(type, payload, len)\<close> writes: start byte,
  length, type, the first \<open>len\<close> payload bytes, and the checksum, which starts as
  \<open>type ^ len\<close> and takes every payload byte in turn. Every caller passes an array
  of at least \<open>len\<close> bytes.
\<close>

definition frameBytes :: "u8 \<Rightarrow> u8 list \<Rightarrow> u8 \<Rightarrow> u8 list" where
  "frameBytes ty payload n =
     [0xAA, n, ty] @ take (unat n) payload
       @ [fold (\<lambda>b c. c XOR b) (take (unat n) payload) (ty XOR n)]"

definition rs485SendPacket :: "u8 \<Rightarrow> u8 list \<Rightarrow> u8 \<Rightarrow> board \<Rightarrow> board" where
  "rs485SendPacket ty payload n s = s\<lparr>out := out s @ map Wire (frameBytes ty payload n)\<rparr>"

text \<open>The four bytes of a node identity, least significant first.\<close>

definition idBytes :: "u32 \<Rightarrow> u8 list" where
  "idBytes i = [ucast (i AND 0xFF), ucast (drop_bit 8 i AND 0xFF),
                ucast (drop_bit 16 i AND 0xFF), ucast (drop_bit 24 i AND 0xFF)]"

definition readId :: "u8 list \<Rightarrow> u32" where
  "readId payload =
     ucast (payload ! 0) OR push_bit 8 (ucast (payload ! 1))
       OR push_bit 16 (ucast (payload ! 2)) OR push_bit 24 (ucast (payload ! 3))"

subsection \<open>Node registry\<close>

text \<open>The search loop of \<^verbatim>\<open>registerNode\<close>: the first slot holding the identity.\<close>

fun findNode :: "u32 \<Rightarrow> NodeInfo list \<Rightarrow> nat option" where
  "findNode nid [] = None"
| "findNode nid (e # es) =
     (if nodeId e = nid then Some 0 else map_option Suc (findNode nid es))"

definition registerNode :: "u32 \<Rightarrow> u8 \<Rightarrow> board \<Rightarrow> board" where
  "registerNode nid idx s =
     (let nl = nodeList s;
          found = findNode nid (entries nl);
          nl1 = (case found of
                   Some i \<Rightarrow> nl\<lparr>nodes := (nodes nl)[i := (nodes nl ! i)\<lparr>boardIndex := idx\<rparr>]\<rparr>
                 | None \<Rightarrow> nl);
          added = (found = None \<and> count nl1 < RS485_MAX_NODES);
          nl2 = (if added
                 then nl1\<lparr>nodes := (nodes nl1)[unat (count nl1) := \<lparr>nodeId = nid, boardIndex = idx\<rparr>],
                          count := count nl1 + 1\<rparr>
                 else nl1);
          s1 = s\<lparr>nodeList := nl2\<rparr>
      in if discoveryDone s1 \<and> added \<and> myBoardIndex s1 = 0
         then (rs485SendPacket RS485_REMAP_REQUEST_MSG [0] 0 s1)
                \<lparr>remapRequested := True, networkHealthy := False\<rparr>
         else s1)"

subsection \<open>Remote note callbacks\<close>

text \<open>
  The loop of \<^verbatim>\<open>keyIndexFromNote\<close>: the index of the first table entry equal to the
  offset, 0xFF when there is none.
\<close>

fun keyScan :: "u8 \<Rightarrow> u8 list \<Rightarrow> u8 \<Rightarrow> u8" where
  "keyScan offset [] i = 0xFF"
| "keyScan offset (k # ks) i = (if k = offset then i else keyScan offset ks (i + 1))"

definition keyIndexFromNote :: "u8 \<Rightarrow> board \<Rightarrow> u8" where
  "keyIndexFromNote note s = keyScan (note - boardBaseNote s) keyToNote 0"

definition setKeyLedBase :: "u8 \<Rightarrow> u8 \<Rightarrow> bool \<Rightarrow> board \<Rightarrow> board" where
  "setKeyLedBase keyIndex velocity on s =
     (if TOTAL_KEYS \<le> unat keyIndex then s
      else s\<lparr>keyBaseVelocity :=
               (keyBaseVelocity s)[unat keyIndex := (if on then velocity else 0)]\<rparr>)"

definition onRemoteNoteOn :: "u8 \<Rightarrow> u8 \<Rightarrow> board \<Rightarrow> board" where
  "onRemoteNoteOn note velocity s =
     (let keyIndex = keyIndexFromNote note s;
          s1 = (if keyIndex \<noteq> 0xFF then setKeyLedBase keyIndex velocity True s else s)
      in s1\<lparr>out := out s1 @ [StartRipple note velocity, MidiSendNoteOn note velocity,
                               SynthNoteOn note velocity]\<rparr>)"

definition onRemoteNoteOff :: "u8 \<Rightarrow> board \<Rightarrow> board" where
  "onRemoteNoteOff note s =
     (let keyIndex = keyIndexFromNote note s;
          s1 = (if keyIndex \<noteq> 0xFF then setKeyLedBase keyIndex 0 False s else s)
      in s1\<lparr>out := out s1 @ [MidiSendNoteOff note 0, SynthNoteOff note]\<rparr>)"

subsection \<open>Packet handlers\<close>

definition handleAnnouncePacket :: "u8 list \<Rightarrow> u8 \<Rightarrow> board \<Rightarrow> board" where
  "handleAnnouncePacket payload n s =
     (if n \<noteq> 5 then s else registerNode (readId payload) (payload ! 4) s)"

definition handleNotePacket :: "u8 list \<Rightarrow> u8 \<Rightarrow> board \<Rightarrow> board" where
  "handleNotePacket payload n s =
     (if n \<noteq> 7 then s
      else if readId payload = myNodeId s then s
      else if payload ! 6 \<noteq> 0 then onRemoteNoteOn (payload ! 4) (payload ! 5) s
      else onRemoteNoteOff (payload ! 4) s)"

definition handlePingPacket :: "u8 list \<Rightarrow> u8 \<Rightarrow> board \<Rightarrow> board" where
  "handlePingPacket payload n s =
     (if n \<noteq> 1 then s
      else rs485SendPacket RS485_PING_REPLY_MSG (idBytes (myNodeId s) @ [payload ! 0]) 5 s)"

definition handlePingReplyPacket :: "u8 list \<Rightarrow> u8 \<Rightarrow> board \<Rightarrow> board" where
  "handlePingReplyPacket payload n s =
     (if n \<noteq> 5 then s
      else if \<not> awaitingPingReplies s then s
      else if payload ! 4 \<noteq> pingSequence s then s
      else (case findNode (readId payload) (entries (nodeList s)) of
              Some i \<Rightarrow> s\<lparr>pingReceived := (pingReceived s)[i := True]\<rparr>
            | None \<Rightarrow> s))"

definition handleRemapRequestPacket :: "u8 list \<Rightarrow> u8 \<Rightarrow> board \<Rightarrow> board" where
  "handleRemapRequestPacket payload n s = s\<lparr>remapRequested := True, networkHealthy := False\<rparr>"

subsection \<open>Packet transport: receiving\<close>

text \<open>The chain of type tests in state 4 of \<^verbatim>\<open>processRs485\<close>.\<close>

definition dispatch :: "board \<Rightarrow> board" where
  "dispatch s =
     (let r = rx s in
      if type r = RS485_ANNOUNCE_MSG then handleAnnouncePacket (buf r) (len r) s
      else if type r = RS485_NOTE_MSG then handleNotePacket (buf r) (len r) s
      else if type r = RS485_PING_MSG then handlePingPacket (buf r) (len r) s
      else if type r = RS485_PING_REPLY_MSG then handlePingReplyPacket (buf r) (len r) s
      else if type r = RS485_REMAP_REQUEST_MSG then handleRemapRequestPacket (buf r) (len r) s
      else s)"

text \<open>One turn of the \<^verbatim>\<open>while (RS485.available())\<close> loop: the \<^verbatim>\<open>switch\<close> on one byte.\<close>

definition processByte :: "u8 \<Rightarrow> board \<Rightarrow> board" where
  "processByte b s =
     (let r = rx s in
      if state r = 0 then
        (if b = 0xAA then s\<lparr>rx := r\<lparr>state := 1, checksum := 0\<rparr>\<rparr> else s)
      else if state r = 1 then s\<lparr>rx := r\<lparr>len := b, pos := 0, state := 2\<rparr>\<rparr>
      else if state r = 2 then
        s\<lparr>rx := r\<lparr>type := b, checksum := b XOR len r, state := 3\<rparr>\<rparr>
      else if state r = 3 then
        (let r1 = (if unat (pos r) < 32
                   then r\<lparr>buf := (buf r)[unat (pos r) := b], pos := pos r + 1,
                          checksum := checksum r XOR b\<rparr>
                   else r);
             r2 = (if len r1 \<le> pos r1 then r1\<lparr>state := 4\<rparr> else r1)
         in s\<lparr>rx := r2\<rparr>)
      else if state r = 4 then
        (let s1 = (if checksum r = b then dispatch s else s)
         in s1\<lparr>rx := (rx s1)\<lparr>state := 0\<rparr>\<rparr>)
      else s)"

text \<open>\<^verbatim>\<open>processRs485\<close> on the bytes the UART holds when it is called.\<close>

definition processRs485 :: "u8 list \<Rightarrow> board \<Rightarrow> board" where
  "processRs485 bytes s = fold processByte bytes s"

subsection \<open>Chain discovery\<close>

definition pulseRightNeighbor :: "board \<Rightarrow> board" where
  "pulseRightNeighbor s = s\<lparr>out := out s @ [NeighborRight LOW, NeighborRight HIGH]\<rparr>"

definition sendIdAnnounce :: "u8 \<Rightarrow> board \<Rightarrow> board" where
  "sendIdAnnounce idx s =
     registerNode (myNodeId s) idx
       (rs485SendPacket RS485_ANNOUNCE_MSG (idBytes (myNodeId s) @ [idx]) 5 s)"

text \<open>
  The maximum loop that \<^verbatim>\<open>startDiscovery\<close> runs twice, once on a falling edge and
  once after the wait: it starts from the board's own index (0 while that is the
  marker 0xFF) and takes every registry index that is not 0xFF and is larger.
\<close>

definition maxKnownIndex :: "board \<Rightarrow> u8" where
  "maxKnownIndex s =
     fold (\<lambda>e m. if boardIndex e \<noteq> 0xFF \<and> boardIndex e > m then boardIndex e else m)
       (entries (nodeList s)) (if myBoardIndex s = 0xFF then 0 else myBoardIndex s)"

text \<open>
  What one turn of the wait loop reads from outside: the clock at the loop test, the
  bytes the UART holds, the left-neighbour pin, and the clock at the break test.
\<close>

record tick =
  nowTop :: u32
  rxBytes :: "u8 list"
  leftNow :: level
  nowBreak :: u32

text \<open>
  What a whole run reads: the left pin when the board senses its neighbour, the clock
  at \<open>tStart\<close>, the left pin when \<open>leftPrev\<close> is initialised, and the turns of the loop.
\<close>

record discoveryEnv =
  leftAtSense :: level
  tStart :: u32
  leftAtStart :: level
  ticks :: "tick list"

text \<open>The body of the wait loop up to the assignment of \<open>leftPrev\<close>.\<close>

definition discoveryBody :: "tick \<Rightarrow> level \<Rightarrow> board \<Rightarrow> board" where
  "discoveryBody t leftPrev s =
     (let s1 = processRs485 (rxBytes t) s in
      if leftPrev = HIGH \<and> leftNow t = LOW \<and> myBoardIndex s1 = 0xFF
      then (let newIdx = maxKnownIndex s1 + 1;
                s2 = s1\<lparr>myBoardIndex := newIdx\<rparr>
            in pulseRightNeighbor (sendIdAnnounce (myBoardIndex s2) s2))
      else s1)"

text \<open>
  The wait loop. It leaves when the clock says the budget is used up, or when the
  board has an index and more than 100 ms have passed. The list of turns is what the
  outside world supplies; a list that ends before either exit gives \<open>None\<close>.
\<close>

fun discoveryLoop :: "u32 \<Rightarrow> tick list \<Rightarrow> level \<Rightarrow> board \<Rightarrow> board option" where
  "discoveryLoop t0 [] leftPrev s = None"
| "discoveryLoop t0 (t # ts) leftPrev s =
     (if \<not> nowTop t - t0 < DISCOVERY_MAX_MS then Some s
      else (let s1 = discoveryBody t leftPrev s in
            if myBoardIndex s1 \<noteq> 0xFF \<and> nowBreak t - t0 > 100 then Some s1
            else discoveryLoop t0 ts (leftNow t) s1))"

text \<open>The code of \<^verbatim>\<open>startDiscovery\<close> after the wait loop.\<close>

definition finishDiscovery :: "board \<Rightarrow> board" where
  "finishDiscovery s =
     (let maxIdx = maxKnownIndex s;
          s1 = s\<lparr>totalBoards := maxIdx + 1\<rparr>;
          s2 = (if myBoardIndex s1 = 0xFF then s1\<lparr>myBoardIndex := 0\<rparr> else s1);
          s3 = s2\<lparr>boardBaseNote := GLOBAL_BASE_NOTE + myBoardIndex s2 * BOARD_NOTE_SPAN\<rparr>
      in s3\<lparr>discoveryDone := True, isRemapping := False, networkHealthy := True\<rparr>)"

text \<open>The code of \<^verbatim>\<open>startDiscovery\<close> before the wait loop.\<close>

definition beginDiscovery :: "discoveryEnv \<Rightarrow> board \<Rightarrow> board" where
  "beginDiscovery env s =
     (let s1 = s\<lparr>discoveryDone := False, isRemapping := True, networkHealthy := False,
                 myBoardIndex := 0xFF, nodeList := (nodeList s)\<lparr>count := 0\<rparr>,
                 keyBaseVelocity := replicate TOTAL_KEYS 0\<rparr>;
          s2 = s1\<lparr>out := out s1 @ [NeighborRight LOW]\<rparr>;
          s3 = s2\<lparr>hasLeftNeighbor := (leftAtSense env = LOW)\<rparr>;
          isRoot = (\<not> hasLeftNeighbor s3);
          s4 = s3\<lparr>out := out s3 @ [NeighborRight HIGH]\<rparr>
      in if isRoot
         then (let s5 = s4\<lparr>myBoardIndex := 0\<rparr>
               in pulseRightNeighbor (sendIdAnnounce (myBoardIndex s5) s5))
         else s4)"

definition startDiscovery :: "discoveryEnv \<Rightarrow> board \<Rightarrow> board option" where
  "startDiscovery env s =
     map_option finishDiscovery
       (discoveryLoop (tStart env) (ticks env) (leftAtStart env) (beginDiscovery env s))"

subsection \<open>The root's ping cycle\<close>

text \<open>\<^verbatim>\<open>sendPing\<close>; the argument is the clock it reads for \<open>pingStartMs\<close>.\<close>

definition sendPing :: "u32 \<Rightarrow> board \<Rightarrow> board" where
  "sendPing now s =
     (let s1 = s\<lparr>pingSequence := pingSequence s + 1\<rparr>;
          s2 = rs485SendPacket RS485_PING_MSG [pingSequence s1] 1 s1;
          s3 = s2\<lparr>pingReceived := replicate 16 False\<rparr>;
          s4 = (case findNode (myNodeId s3) (entries (nodeList s3)) of
                  Some i \<Rightarrow> s3\<lparr>pingReceived := (pingReceived s3)[i := True]\<rparr>
                | None \<Rightarrow> s3)
      in s4\<lparr>awaitingPingReplies := True, pingStartMs := now\<rparr>)"

text \<open>The scan for a reply slot that is still false among the first \<open>count\<close> slots.\<close>

definition replyMissing :: "board \<Rightarrow> bool" where
  "replyMissing s = list_ex (\<lambda>r. \<not> r) (take (unat (count (nodeList s))) (pingReceived s))"

text \<open>
  The ping block of \<^verbatim>\<open>loop()\<close>: \<open>nowMs\<close> is the clock the block reads, \<open>pingNow\<close> the
  clock \<^verbatim>\<open>sendPing\<close> reads.
\<close>

definition healthMonitor :: "u32 \<Rightarrow> u32 \<Rightarrow> board \<Rightarrow> board" where
  "healthMonitor nowMs pingNow s =
     (if myBoardIndex s = 0 \<and> totalBoards s > 1 then
        (if \<not> awaitingPingReplies s \<and> nowMs - lastPingMs s > PING_INTERVAL_MS
         then (sendPing pingNow s)\<lparr>lastPingMs := nowMs\<rparr>
         else if awaitingPingReplies s \<and> nowMs - pingStartMs s > PING_TIMEOUT_MS
         then (let missing = replyMissing s;
                   s1 = s\<lparr>awaitingPingReplies := False\<rparr>
               in if missing
                  then (rs485SendPacket RS485_REMAP_REQUEST_MSG [0] 0
                          (s1\<lparr>networkHealthy := False\<rparr>))\<lparr>remapRequested := True\<rparr>
                  else s1\<lparr>networkHealthy := True\<rparr>)
         else s)
      else s)"

subsection \<open>The main loop\<close>

text \<open>
  One pass of \<^verbatim>\<open>loop()\<close> as far as the protocol goes: the pending-remap test, the
  receive poll and the ping block. Key scanning, the encoder, audio and LED rendering
  stand between them in the source; the pass modelled here is one in which no local
  key changes.
\<close>

record loopEnv =
  discovery :: discoveryEnv
  rxNow :: "u8 list"
  clockMs :: u32
  pingClockMs :: u32

definition loopIter :: "loopEnv \<Rightarrow> board \<Rightarrow> board option" where
  "loopIter e s =
     (case (if remapRequested s
            then startDiscovery (discovery e) (s\<lparr>remapRequested := False\<rparr>)
            else Some s) of
        None \<Rightarrow> None
      | Some s1 \<Rightarrow> Some (healthMonitor (clockMs e) (pingClockMs e) (processRs485 (rxNow e) s1)))"

subsection \<open>Reading the registry and the receive buffer\<close>

text \<open>The position the registry records for an identity, if it holds the identity.\<close>

definition recorded :: "NodeList \<Rightarrow> u32 \<Rightarrow> u8 option" where
  "recorded nl = map_of (map (\<lambda>e. (nodeId e, boardIndex e)) (entries nl))"

text \<open>A sequence of \<^verbatim>\<open>registerNode\<close> calls, first call first.\<close>

definition registerAll :: "(u32 \<times> u8) list \<Rightarrow> board \<Rightarrow> board" where
  "registerAll calls s = fold (\<lambda>(nid, idx). registerNode nid idx) calls s"

text \<open>The registry invariant: at most 16 live slots of a 16-slot array, no identity twice.\<close>

definition wellFormed :: "NodeList \<Rightarrow> bool" where
  "wellFormed nl = (unat (count nl) \<le> 16 \<and> length (nodes nl) = 16
                    \<and> distinct (map nodeId (entries nl)))"

text \<open>
  The receive state just before the checksum byte of a frame of type \<open>ty\<close> with the
  given payload: state 4, the payload at the front of the staging buffer, the running
  checksum over type, length and payload.
\<close>

definition loaded :: "u8 \<Rightarrow> u8 list \<Rightarrow> RxState \<Rightarrow> RxState" where
  "loaded ty payload r =
     r\<lparr>state := 4, len := of_nat (length payload), type := ty,
       buf := payload @ drop (length payload) (buf r), pos := of_nat (length payload),
       checksum := fold (\<lambda>b c. c XOR b) payload (ty XOR of_nat (length payload))\<rparr>"

subsection \<open>The board after \<^verbatim>\<open>setup()\<close>, before the first discovery\<close>

definition rx0 :: RxState where
  "rx0 = \<lparr>state = 0, len = 0, type = 0, buf = replicate 32 0, pos = 0, checksum = 0\<rparr>"

text \<open>The globals with their initialisers, the random identity and the boot time.\<close>

definition bootBoard :: "u32 \<Rightarrow> u32 \<Rightarrow> board" where
  "bootBoard nid now =
     \<lparr>myNodeId = nid,
      nodeList = \<lparr>count = 0, nodes = replicate 16 \<lparr>nodeId = 0, boardIndex = 0\<rparr>\<rparr>,
      myBoardIndex = 0, totalBoards = 1, discoveryDone = False, remapRequested = False,
      isRemapping = False, networkHealthy = False, boardBaseNote = GLOBAL_BASE_NOTE,
      hasLeftNeighbor = False, rx = rx0, keyBaseVelocity = replicate TOTAL_KEYS 0,
      pingSequence = 0, awaitingPingReplies = False, pingStartMs = 0, lastPingMs = now,
      pingReceived = replicate 16 False, out = []\<rparr>"

text \<open>Seventeen registrations: sixteen identities, then the fourth of them again.\<close>

definition fullCalls :: "(u32 \<times> u8) list" where
  "fullCalls = map (\<lambda>k. (of_nat k + 100, of_nat k)) [0..<16] @ [(103, 9)]"

subsection \<open>Concrete boards and environments\<close>

text \<open>The bytes \<^verbatim>\<open>sendIdAnnounce\<close> puts on the bus for an identity and a position.\<close>

definition announceBytes :: "u32 \<Rightarrow> u8 \<Rightarrow> u8 list" where
  "announceBytes nid idx = frameBytes RS485_ANNOUNCE_MSG (idBytes nid @ [idx]) 5"

text \<open>
  What the board at place \<open>k\<close> of a chain sees during a run: a left neighbour, the
  ANNOUNCE frames of the \<open>k\<close> boards to its left (identities 0x100 + j at positions j),
  then the pulse of its left neighbour, then the clock past 100 ms. The last turn, not
  reached in such a run, shows the clock past the budget.
\<close>

definition chainEnv :: "nat \<Rightarrow> discoveryEnv" where
  "chainEnv k =
     \<lparr>leftAtSense = LOW, tStart = 10, leftAtStart = HIGH,
      ticks =
        [\<lparr>nowTop = 12,
          rxBytes = concat (map (\<lambda>j. announceBytes (of_nat j + 0x100) (of_nat j)) [0..<k]),
          leftNow = HIGH, nowBreak = 13\<rparr>,
         \<lparr>nowTop = 14, rxBytes = [], leftNow = LOW, nowBreak = 20\<rparr>,
         \<lparr>nowTop = 120, rxBytes = [], leftNow = HIGH, nowBreak = 121\<rparr>,
         \<lparr>nowTop = 1011, rxBytes = [], leftNow = HIGH, nowBreak = 1012\<rparr>]\<rparr>"

text \<open>The REMAP_REQUEST frame as the firmware sends it: AA 00 05 05.\<close>

definition remapFrame :: "u8 list" where
  "remapFrame = frameBytes RS485_REMAP_REQUEST_MSG [0] 0"

text \<open>
  What a downstream board sees during a run in which the given bytes arrive on the bus
  in the first turn: then the pulse of its left neighbour, then the clock past 100 ms.
\<close>

definition busEnv :: "u8 list \<Rightarrow> discoveryEnv" where
  "busEnv bytes =
     \<lparr>leftAtSense = LOW, tStart = 10, leftAtStart = HIGH,
      ticks =
        [\<lparr>nowTop = 12, rxBytes = bytes, leftNow = HIGH, nowBreak = 13\<rparr>,
         \<lparr>nowTop = 14, rxBytes = [], leftNow = LOW, nowBreak = 20\<rparr>,
         \<lparr>nowTop = 120, rxBytes = [], leftNow = HIGH, nowBreak = 121\<rparr>,
         \<lparr>nowTop = 1011, rxBytes = [], leftNow = HIGH, nowBreak = 1012\<rparr>]\<rparr>"

text \<open>
  Bus traffic of a remap as another root starts it: its REMAP_REQUEST frame, then the
  ANNOUNCE of its own run. The root's random identity here is 0x050500AA.
\<close>

definition remapTraffic :: "u8 list" where
  "remapTraffic = remapFrame @ announceBytes 0x050500AA 0"

text \<open>
  A root that knows itself (identity 7) and one more board (identity 9): discovery is
  done and two boards are counted.
\<close>

definition rootBoard :: board where
  "rootBoard = (registerAll [(7, 0), (9, 1)] (bootBoard 7 0))
                 \<lparr>totalBoards := 2, discoveryDone := True, networkHealthy := True\<rparr>"

text \<open>The same root after it has sent a PING at time 1000, and after board 9 has replied.\<close>

definition waitingBoard :: board where
  "waitingBoard = sendPing 1000 rootBoard"

definition repliedBoard :: board where
  "repliedBoard = handlePingReplyPacket (idBytes 9 @ [1]) 5 waitingBoard"

text \<open>A turn of the wait loop in which the root's ANNOUNCE arrives and the left pin is low.\<close>

definition edgeTick :: tick where
  "edgeTick = \<lparr>nowTop = 14, rxBytes = announceBytes 0x100 0, leftNow = LOW, nowBreak = 20\<rparr>"

subsection \<open>Boards that differ only in the two remap flags\<close>

text \<open>
  \<^verbatim>\<open>handleRemapRequestPacket\<close> writes two flags and nothing else. \<open>pendingForm\<close> sets
  both to what the handler writes, so two boards with the same \<open>pendingForm\<close> differ at
  most in these flags.
\<close>

definition pendingForm :: "board \<Rightarrow> board" where
  "pendingForm s = s\<lparr>remapRequested := True, networkHealthy := False\<rparr>"

section \<open>Properties\<close>

lemmas consts_defs =
  GLOBAL_BASE_NOTE_def BOARD_NOTE_SPAN_def RS485_MAX_NODES_def RS485_ANNOUNCE_MSG_def
  RS485_NOTE_MSG_def RS485_PING_MSG_def RS485_PING_REPLY_MSG_def
  RS485_REMAP_REQUEST_MSG_def DISCOVERY_MAX_MS_def PING_INTERVAL_MS_def
  PING_TIMEOUT_MS_def TOTAL_KEYS_def

lemmas note_defs =
  handleNotePacket_def onRemoteNoteOn_def onRemoteNoteOff_def setKeyLedBase_def
  keyIndexFromNote_def

subsection \<open>The receive state machine on one frame\<close>

lemma rx_payload:
  "state (rx s) = 3 \<Longrightarrow> unat (pos (rx s)) + length ps = unat (len (rx s)) \<Longrightarrow> ps \<noteq> [] \<Longrightarrow>
   unat (len (rx s)) \<le> 32 \<Longrightarrow> length (buf (rx s)) = 32 \<Longrightarrow>
   fold processByte ps s =
     s\<lparr>rx := (rx s)\<lparr>buf := take (unat (pos (rx s))) (buf (rx s)) @ ps
                              @ drop (unat (len (rx s))) (buf (rx s)),
                       pos := len (rx s),
                       checksum := fold (\<lambda>b c. c XOR b) ps (checksum (rx s)),
                       state := 4\<rparr>\<rparr>"
proof (induction ps arbitrary: s)
  case Nil
  then show ?case by simp
next
  case (Cons p ps)
  let ?r = "rx s"
  have lt: "unat (pos ?r) < 32" using Cons.prems by simp
  have suc: "unat (pos ?r + 1) = Suc (unat (pos ?r))"
    using lt by (simp add: unat_word_ariths)
  show ?case
  proof (cases "ps = []")
    case True
    have "unat (len ?r) = unat (pos ?r + 1)"
      using Cons.prems True suc by simp
    then have "len ?r = pos ?r + 1" by (simp only: word_unat_eq_iff)
    then show ?thesis using Cons.prems True lt
      by (simp add: processByte_def Let_def upd_conv_take_nth_drop suc)
  next
    case False
    have "unat (pos ?r + 1) < unat (len ?r)"
      using Cons.prems False suc by (cases ps) auto
    then have nle: "\<not> len ?r \<le> pos ?r + 1" by (simp add: word_le_nat_alt)
    let ?s1 = "processByte p s"
    have s1: "?s1 = s\<lparr>rx := ?r\<lparr>buf := (buf ?r)[unat (pos ?r) := p], pos := pos ?r + 1,
                          checksum := checksum ?r XOR p\<rparr>\<rparr>"
      using Cons.prems lt nle by (simp add: processByte_def Let_def)
    have "fold processByte (p # ps) s = fold processByte ps ?s1" by simp
    also have "\<dots> = ?s1\<lparr>rx := (rx ?s1)\<lparr>buf := take (unat (pos (rx ?s1))) (buf (rx ?s1)) @ ps
                              @ drop (unat (len (rx ?s1))) (buf (rx ?s1)),
                       pos := len (rx ?s1),
                       checksum := fold (\<lambda>b c. c XOR b) ps (checksum (rx ?s1)),
                       state := 4\<rparr>\<rparr>"
      apply (rule Cons.IH)
      using Cons.prems False suc by (simp_all add: s1)
    also have "\<dots> = s\<lparr>rx := ?r\<lparr>buf := take (unat (pos ?r)) (buf ?r) @ (p # ps)
                              @ drop (unat (len ?r)) (buf ?r),
                       pos := len ?r,
                       checksum := fold (\<lambda>b c. c XOR b) (p # ps) (checksum ?r),
                       state := 4\<rparr>\<rparr>"
      using lt Cons.prems by (simp add: s1 suc take_Suc_conv_app_nth)
    finally show ?thesis .
  qed
qed

lemma rx_header:
  "state (rx s) = 0 \<Longrightarrow>
   fold processByte [0xAA, n, ty] s =
     s\<lparr>rx := (rx s)\<lparr>state := 3, checksum := ty XOR n, len := n, pos := 0, type := ty\<rparr>\<rparr>"
  by (simp add: processByte_def Let_def)

lemma rx_frame:
  assumes "state (rx s) = 0" "length (buf (rx s)) = 32"
    and "payload \<noteq> []" "length payload \<le> 32"
  shows "processRs485 ([0xAA, of_nat (length payload), ty] @ payload @ [c]) s =
     (let s4 = s\<lparr>rx := loaded ty payload (rx s)\<rparr>;
          s1 = (if checksum (rx s4) = c then dispatch s4 else s4)
      in s1\<lparr>rx := (rx s1)\<lparr>state := 0\<rparr>\<rparr>)"
proof -
  let ?n = "of_nat (length payload) :: u8"
  have n: "unat ?n = length payload" using assms(4) by (simp add: unat_of_nat)
  let ?s3 = "s\<lparr>rx := (rx s)\<lparr>state := 3, checksum := ty XOR ?n, len := ?n, pos := 0, type := ty\<rparr>\<rparr>"
  let ?s4 = "s\<lparr>rx := loaded ty payload (rx s)\<rparr>"
  have "fold processByte payload ?s3 = ?s4"
    using assms n by (subst rx_payload) (simp_all add: loaded_def)
  then have "fold processByte ([0xAA, ?n, ty] @ payload) s = ?s4"
    using rx_header [OF assms(1), of ?n ty] by (simp only: fold_append comp_apply)
  then have "processRs485 ([0xAA, ?n, ty] @ payload @ [c]) s = processByte c ?s4"
    unfolding processRs485_def by (simp only: fold_append comp_apply append_assoc [symmetric] fold_simps id_apply)
  also have "\<dots> = (let s4 = ?s4; s1 = (if checksum (rx s4) = c then dispatch s4 else s4)
      in s1\<lparr>rx := (rx s1)\<lparr>state := 0\<rparr>\<rparr>)"
    by (simp add: processByte_def Let_def loaded_def)
  finally show ?thesis .
qed

lemma frameBytes_exact:
  "length payload \<le> 255 \<Longrightarrow>
   frameBytes ty payload (of_nat (length payload)) =
     [0xAA, of_nat (length payload), ty] @ payload
       @ [fold (\<lambda>b c. c XOR b) payload (ty XOR of_nat (length payload))]"
  by (simp add: frameBytes_def unat_of_nat)

lemma rx_good_frame:
  assumes "state (rx s) = 0" "length (buf (rx s)) = 32"
    and "payload \<noteq> []" "length payload \<le> 32"
  shows "processRs485 (frameBytes ty payload (of_nat (length payload))) s =
           (let s1 = dispatch (s\<lparr>rx := loaded ty payload (rx s)\<rparr>)
            in s1\<lparr>rx := (rx s1)\<lparr>state := 0\<rparr>\<rparr>)"
proof -
  have "length payload \<le> 255" using assms(4) by simp
  then show ?thesis
    unfolding frameBytes_exact [OF \<open>length payload \<le> 255\<close>] rx_frame [OF assms]
    by (simp add: Let_def loaded_def)
qed

lemma rx_empty_frame:
  assumes "state (rx s) = 0" "length (buf (rx s)) = 32"
  shows "processRs485 [0xAA, 0, ty, c] s =
           s\<lparr>rx := (rx s)\<lparr>state := 4, len := 0, type := ty, buf := (buf (rx s))[0 := c],
                          pos := 1, checksum := ty XOR c\<rparr>\<rparr>"
  using assms by (simp add: processRs485_def processByte_def Let_def)

lemma frameBytes_empty: "frameBytes ty payload 0 = [0xAA, 0, ty, ty]"
  by (simp add: frameBytes_def)

lemma rx_drop_non_start:
  "state (rx s) = 0 \<Longrightarrow> 0xAA \<notin> set bytes \<Longrightarrow> processRs485 bytes s = s"
  unfolding processRs485_def
  by (induction bytes arbitrary: s) (auto simp: processByte_def Let_def)

lemma stuck_step:
  assumes "state (rx s) = 3" "32 < unat (len (rx s))" "unat (pos (rx s)) \<le> 32"
  shows "state (rx (processByte b s)) = 3 \<and> len (rx (processByte b s)) = len (rx s)
         \<and> unat (pos (rx (processByte b s))) \<le> 32
         \<and> (processByte b s)\<lparr>rx := r\<rparr> = s\<lparr>rx := r\<rparr>"
proof (cases "unat (pos (rx s)) < 32")
  case True
  then have suc: "unat (pos (rx s) + 1) = Suc (unat (pos (rx s)))"
    by (simp add: unat_word_ariths)
  then have "\<not> len (rx s) \<le> pos (rx s) + 1"
    using assms True by (simp add: word_le_nat_alt)
  then show ?thesis using assms True suc by (simp add: processByte_def Let_def)
next
  case False
  then have "\<not> len (rx s) \<le> pos (rx s)"
    using assms by (simp add: word_le_nat_alt)
  then show ?thesis using assms False by (simp add: processByte_def Let_def)
qed

lemma rx_overrun_stuck:
  assumes "state (rx s) = 3" "32 < unat (len (rx s))" "unat (pos (rx s)) \<le> 32"
  shows "state (rx (processRs485 bytes s)) = 3 \<and> (processRs485 bytes s)\<lparr>rx := r\<rparr> = s\<lparr>rx := r\<rparr>"
  using assms unfolding processRs485_def
proof (induction bytes arbitrary: s)
  case Nil
  then show ?case by simp
next
  case (Cons b bytes)
  note st = stuck_step [OF Cons.prems, of b r]
  have "state (rx (fold processByte bytes (processByte b s))) = 3 \<and>
        (fold processByte bytes (processByte b s))\<lparr>rx := r\<rparr> = (processByte b s)\<lparr>rx := r\<rparr>"
    using st Cons.prems by (intro Cons.IH) simp_all
  then show ?case using st by simp
qed

lemma rx_bad_checksum:
  assumes "state (rx s) = 0" "length (buf (rx s)) = 32"
    and "payload \<noteq> []" "length payload \<le> 32"
    and "c \<noteq> fold (\<lambda>b c. c XOR b) payload (ty XOR of_nat (length payload))"
  shows "processRs485 ([0xAA, of_nat (length payload), ty] @ payload @ [c]) s =
           s\<lparr>rx := (loaded ty payload (rx s))\<lparr>state := 0\<rparr>\<rparr>"
  unfolding rx_frame [OF assms(1-4)] using assms(5) by (auto simp: Let_def loaded_def)

lemma processRs485_append:
  "processRs485 (xs @ ys) s = processRs485 ys (processRs485 xs s)"
  by (simp add: processRs485_def)

lemma rx_bad_then_good:
  assumes "state (rx s) = 0" "length (buf (rx s)) = 32"
    and "payload \<noteq> []" "length payload \<le> 32"
    and "c \<noteq> fold (\<lambda>b c. c XOR b) payload (ty XOR of_nat (length payload))"
    and "payload' \<noteq> []" "length payload' \<le> 32"
  shows "processRs485 (([0xAA, of_nat (length payload), ty] @ payload @ [c])
                        @ frameBytes ty' payload' (of_nat (length payload'))) s =
           (let s1 = dispatch (s\<lparr>rx := loaded ty' payload' (loaded ty payload (rx s))\<rparr>)
            in s1\<lparr>rx := (rx s1)\<lparr>state := 0\<rparr>\<rparr>)"
proof -
  let ?s1 = "s\<lparr>rx := (loaded ty payload (rx s))\<lparr>state := 0\<rparr>\<rparr>"
  have a: "state (rx ?s1) = 0" by simp
  have b: "length (buf (rx ?s1)) = 32" using assms(2,4) by (simp add: loaded_def)
  have "processRs485 (([0xAA, of_nat (length payload), ty] @ payload @ [c])
                        @ frameBytes ty' payload' (of_nat (length payload'))) s
        = processRs485 (frameBytes ty' payload' (of_nat (length payload'))) ?s1"
    by (simp only: processRs485_append [of "[0xAA, of_nat (length payload), ty] @ payload @ [c]"]
          rx_bad_checksum [OF assms(1-5)])
  also have "\<dots> = (let s1 = dispatch (?s1\<lparr>rx := loaded ty' payload' (rx ?s1)\<rparr>)
            in s1\<lparr>rx := (rx s1)\<lparr>state := 0\<rparr>\<rparr>)"
    by (rule rx_good_frame [OF a b assms(6,7)])
  finally show ?thesis by (simp add: loaded_def)
qed

lemma replicate_16: "replicate 16 x = x # replicate 15 x"
  by (simp add: eval_nat_numeral)

lemma boot_idle: "state (rx (bootBoard nid now)) = 0" "length (buf (rx (bootBoard nid now))) = 32"
  by (simp_all add: bootBoard_def rx0_def)

text \<open>
  Claim C4 (framing round trip). For a payload of 1 to 32 bytes the round trip holds:
  \<open>rx_good_frame\<close> above shows that the bytes of \<^verbatim>\<open>rs485SendPacket\<close> lead to one
  \<^verbatim>\<open>dispatch\<close> on a receive record that holds the same type and payload. For the empty
  payload it fails. State 3 of \<^verbatim>\<open>processRs485\<close> stores a byte before it compares
  \<open>pos\<close> with \<open>len\<close>, so the checksum byte of a zero-length frame is taken as payload.
  After the four bytes AA 00 05 05 of a REMAP_REQUEST the parser sits in state 4, no
  handler has run and the pending-remap flag is still false; only a further byte 00
  makes the handler run.
\<close>

theorem empty_frame_not_dispatched:
  "processRs485 (frameBytes RS485_REMAP_REQUEST_MSG [0] 0) (bootBoard nid now)
     = (bootBoard nid now)
         \<lparr>rx := rx0\<lparr>state := 4, type := RS485_REMAP_REQUEST_MSG,
                     buf := (buf rx0)[0 := RS485_REMAP_REQUEST_MSG], pos := 1\<rparr>\<rparr>
   \<and> remapRequested (processRs485 (frameBytes RS485_REMAP_REQUEST_MSG [0] 0) (bootBoard nid now))
       = False
   \<and> remapRequested
         (processRs485 (frameBytes RS485_REMAP_REQUEST_MSG [0] 0 @ [0]) (bootBoard nid now))
       = True"
proof -
  let ?b = "bootBoard nid now"
  have a: "processRs485 (frameBytes RS485_REMAP_REQUEST_MSG [0] 0) ?b
     = ?b\<lparr>rx := rx0\<lparr>state := 4, type := RS485_REMAP_REQUEST_MSG,
                     buf := (buf rx0)[0 := RS485_REMAP_REQUEST_MSG], pos := 1\<rparr>\<rparr>"
    unfolding frameBytes_empty rx_empty_frame [OF boot_idle]
    by (simp add: bootBoard_def rx0_def)
  have b: "remapRequested (processRs485 (frameBytes RS485_REMAP_REQUEST_MSG [0] 0 @ [0]) ?b)"
    unfolding processRs485_append a
    by (simp add: processRs485_def processByte_def dispatch_def handleRemapRequestPacket_def
          consts_defs rx0_def)
  show ?thesis using b unfolding a by (simp add: bootBoard_def)
qed

text \<open>
  Claim C6 (declared length above the buffer capacity). After a header that declares
  33 payload bytes the parser stays in state 3 whatever bytes follow, and nothing but
  the receive record changes: \<open>pos\<close> stops at 32 and never reaches \<open>len\<close>. The parser
  is not reset, so no later frame is parsed.
\<close>

theorem overlong_frame_wedges_parser:
  "state (rx (processRs485 ([0xAA, 33, ty] @ bytes) (bootBoard nid now))) = 3
   \<and> (processRs485 ([0xAA, 33, ty] @ bytes) (bootBoard nid now))\<lparr>rx := rx0\<rparr> = bootBoard nid now"
proof -
  let ?b = "bootBoard nid now"
  let ?s3 = "processRs485 [0xAA, 33, ty] ?b"
  have h: "?s3 = ?b\<lparr>rx := rx0\<lparr>state := 3, checksum := ty XOR 33, len := 33, pos := 0, type := ty\<rparr>\<rparr>"
    unfolding processRs485_def rx_header [OF boot_idle(1)] by (simp add: bootBoard_def)
  have "state (rx ?s3) = 3" "32 < unat (len (rx ?s3))" "unat (pos (rx ?s3)) \<le> 32"
    unfolding h by simp_all
  from rx_overrun_stuck [OF this, of bytes rx0]
  show ?thesis unfolding processRs485_append [of "[0xAA, 33, ty]"] h
    by (simp add: bootBoard_def)
qed

text \<open>
  Claim C9 (checksum mismatch). For a frame of 1 to 32 payload bytes the claim holds:
  \<open>rx_bad_checksum\<close> and \<open>rx_bad_then_good\<close> above show that only the receive record
  changes and that the next frame is dispatched. For a zero-length frame it fails, by
  the defect of C4. First, the frame AA 00 05 AF has a wrong checksum byte (AF, not 05),
  yet when the start byte AA of the next frame arrives the REMAP_REQUEST handler runs.
  Second, an ANNOUNCE frame that registers its sender when it arrives alone is lost
  when it follows the frame AA 00 05 04.
\<close>

theorem bad_checksum_empty_frame:
  "remapRequested
     (processRs485 ([0xAA, 0, RS485_REMAP_REQUEST_MSG, 0xAF] @ [0xAA]) (bootBoard nid now)) = True
   \<and> recorded (nodeList
        (processRs485 (frameBytes RS485_ANNOUNCE_MSG (idBytes 0x0A0B0C0D @ [3]) 5)
           (bootBoard nid now))) 0x0A0B0C0D = Some 3
   \<and> nodeList
        (processRs485 ([0xAA, 0, RS485_REMAP_REQUEST_MSG, 0x04]
                         @ frameBytes RS485_ANNOUNCE_MSG (idBytes 0x0A0B0C0D @ [3]) 5)
           (bootBoard nid now)) = nodeList (bootBoard nid now)"
proof -
  let ?b = "bootBoard nid now"
  have fb: "frameBytes RS485_ANNOUNCE_MSG (idBytes 0x0A0B0C0D @ [3]) 5
              = [0xAA, 5, 1, 0x0D, 0x0C, 0x0B, 0x0A, 3, 7]"
    by code_simp
  have a: "remapRequested (processRs485 ([0xAA, 0, RS485_REMAP_REQUEST_MSG, 0xAF] @ [0xAA]) ?b)"
    unfolding processRs485_append rx_empty_frame [OF boot_idle]
    by (simp add: processRs485_def processByte_def dispatch_def handleRemapRequestPacket_def
          consts_defs)
  have "readId (idBytes 0x0A0B0C0D @ [3]) = 0x0A0B0C0D" by code_simp
  then have b: "recorded (nodeList (processRs485 [0xAA, 5, 1, 0x0D, 0x0C, 0x0B, 0x0A, 3, 7] ?b))
                  0x0A0B0C0D = Some 3"
    using rx_good_frame [OF boot_idle, of "idBytes 0x0A0B0C0D @ [3]" RS485_ANNOUNCE_MSG nid now]
    unfolding fb [symmetric]
    by (simp add: idBytes_def dispatch_def loaded_def handleAnnouncePacket_def consts_defs
          registerNode_def recorded_def entries_def bootBoard_def readId_def replicate_16)
  let ?s4 = "processRs485 [0xAA, 0, RS485_REMAP_REQUEST_MSG, 0x04] ?b"
  have "processRs485 ([0xAA, 0, RS485_REMAP_REQUEST_MSG, 0x04]
                         @ [0xAA, 5, 1, 0x0D, 0x0C, 0x0B, 0x0A, 3, 7]) ?b
          = processRs485 [5, 1, 0x0D, 0x0C, 0x0B, 0x0A, 3, 7] (processByte 0xAA ?s4)"
    by (simp add: processRs485_def)
  also have "processByte 0xAA ?s4 = ?s4\<lparr>rx := (rx ?s4)\<lparr>state := 0\<rparr>\<rparr>"
    unfolding rx_empty_frame [OF boot_idle] by (simp add: processByte_def consts_defs)
  also have "processRs485 [5, 1, 0x0D, 0x0C, 0x0B, 0x0A, 3, 7] (?s4\<lparr>rx := (rx ?s4)\<lparr>state := 0\<rparr>\<rparr>)
          = ?s4\<lparr>rx := (rx ?s4)\<lparr>state := 0\<rparr>\<rparr>"
    by (rule rx_drop_non_start) simp_all
  finally have c: "nodeList (processRs485 ([0xAA, 0, RS485_REMAP_REQUEST_MSG, 0x04]
                         @ [0xAA, 5, 1, 0x0D, 0x0C, 0x0B, 0x0A, 3, 7]) ?b) = nodeList ?b"
    unfolding rx_empty_frame [OF boot_idle] by simp
  show ?thesis using a b c unfolding fb by simp
qed

subsection \<open>The registry\<close>

lemma findNode_None: "findNode nid es = None \<longleftrightarrow> nid \<notin> nodeId ` set es"
  by (induction es) auto

lemma findNode_Some:
  "findNode nid es = Some i \<Longrightarrow> i < length es \<and> nodeId (es ! i) = nid"
  by (induction es arbitrary: i) (auto split: if_splits)

lemma length_entries: "wellFormed nl \<Longrightarrow> length (entries nl) = unat (count nl)"
  by (simp add: wellFormed_def entries_def)

lemma recorded_None: "recorded nl nid = None \<longleftrightarrow> findNode nid (entries nl) = None"
  by (simp add: recorded_def findNode_None map_of_eq_None_iff image_image)

text \<open>The registry part of registerNode, case by case.\<close>

lemma register_known:
  assumes "wellFormed (nodeList s)" "findNode nid (entries (nodeList s)) = Some i"
  shows "nodeList (registerNode nid idx s) =
           (nodeList s)\<lparr>nodes := (nodes (nodeList s))[i := (nodes (nodeList s) ! i)\<lparr>boardIndex := idx\<rparr>]\<rparr>"
    and "entries (nodeList (registerNode nid idx s)) =
           (entries (nodeList s))[i := (entries (nodeList s) ! i)\<lparr>boardIndex := idx\<rparr>]"
    and "out (registerNode nid idx s) = out s"
    and "registerNode nid idx s = s\<lparr>nodeList := nodeList (registerNode nid idx s)\<rparr>"
  using assms findNode_Some [OF assms(2)]
  by (simp_all add: registerNode_def Let_def entries_def take_update_swap)

lemma register_new:
  assumes "wellFormed (nodeList s)" "findNode nid (entries (nodeList s)) = None"
    "count (nodeList s) < 16"
  shows "entries (nodeList (registerNode nid idx s)) =
           entries (nodeList s) @ [\<lparr>nodeId = nid, boardIndex = idx\<rparr>]"
    and "count (nodeList (registerNode nid idx s)) = count (nodeList s) + 1"
    and "length (nodes (nodeList (registerNode nid idx s))) = 16"
proof -
  let ?nl = "nodeList s"
  have c: "unat (count ?nl) < 16" using assms(3) by (simp add: word_less_nat_alt)
  have suc: "unat (count ?nl + 1) = Suc (unat (count ?nl))"
    using c by (simp add: unat_word_ariths)
  have len: "length (nodes ?nl) = 16" using assms(1) by (simp add: wellFormed_def)
  show "entries (nodeList (registerNode nid idx s)) =
           entries (nodeList s) @ [\<lparr>nodeId = nid, boardIndex = idx\<rparr>]"
    using assms c len
    by (simp add: registerNode_def Let_def entries_def rs485SendPacket_def RS485_MAX_NODES_def suc
          take_Suc_conv_app_nth)
  show "count (nodeList (registerNode nid idx s)) = count (nodeList s) + 1"
    using assms by (simp add: registerNode_def Let_def rs485SendPacket_def RS485_MAX_NODES_def)
  show "length (nodes (nodeList (registerNode nid idx s))) = 16"
    using assms len by (simp add: registerNode_def Let_def rs485SendPacket_def RS485_MAX_NODES_def)
qed

lemma register_full:
  assumes "findNode nid (entries (nodeList s)) = None" "\<not> count (nodeList s) < 16"
  shows "registerNode nid idx s = s"
  using assms by (simp add: registerNode_def Let_def RS485_MAX_NODES_def)

lemma wellFormed_register:
  assumes "wellFormed (nodeList s)"
  shows "wellFormed (nodeList (registerNode nid idx s))"
proof (cases "findNode nid (entries (nodeList s))")
  case (Some i)
  have "map nodeId (entries (nodeList (registerNode nid idx s))) = map nodeId (entries (nodeList s))"
    using findNode_Some [OF Some]
    by (simp add: register_known(2) [OF assms Some] map_update list_update_same_conv)
  moreover have "nodeList (registerNode nid idx s) =
           (nodeList s)\<lparr>nodes := (nodes (nodeList s))[i := (nodes (nodeList s) ! i)\<lparr>boardIndex := idx\<rparr>]\<rparr>"
    by (rule register_known(1) [OF assms Some])
  ultimately show ?thesis using assms by (simp add: wellFormed_def)
next
  case None
  show ?thesis
  proof (cases "count (nodeList s) < 16")
    case True
    have c: "unat (count (nodeList s)) < 16" using True by (simp add: word_less_nat_alt)
    have suc: "unat (count (nodeList s) + 1) = Suc (unat (count (nodeList s)))"
      using c by (simp add: unat_word_ariths)
    show ?thesis
      using assms None c suc
      by (simp add: wellFormed_def register_new [OF assms None True] findNode_None)
  next
    case False
    then show ?thesis using assms by (simp add: register_full [OF None])
  qed
qed

lemma map_of_update_entry:
  "i < length es \<Longrightarrow> distinct (map nodeId es) \<Longrightarrow>
   map_of (map (\<lambda>e. (nodeId e, boardIndex e)) (es[i := (es ! i)\<lparr>boardIndex := idx\<rparr>]))
     = (map_of (map (\<lambda>e. (nodeId e, boardIndex e)) es))(nodeId (es ! i) \<mapsto> idx)"
proof (induction es arbitrary: i)
  case Nil
  then show ?case by simp
next
  case (Cons e es)
  show ?case
  proof (cases i)
    case 0
    then show ?thesis by (auto simp: fun_eq_iff)
  next
    case (Suc j)
    have "es ! j \<in> set es" using Cons.prems Suc by simp
    then have "nodeId (es ! j) \<in> nodeId ` set es" by (rule imageI)
    moreover have "nodeId e \<notin> nodeId ` set es" using Cons.prems by simp
    ultimately have "nodeId (es ! j) \<noteq> nodeId e" by metis
    then show ?thesis using Cons Suc by (auto simp: fun_eq_iff)
  qed
qed

lemma map_add_single:
  "m k = None \<Longrightarrow> [k \<mapsto> v] ++ m = m(k \<mapsto> v)"
  by (auto simp: map_add_def fun_eq_iff split: option.splits)

lemma recorded_register:
  assumes "wellFormed (nodeList s)"
  shows "recorded (nodeList (registerNode nid idx s)) =
           (if recorded (nodeList s) nid = None \<and> \<not> count (nodeList s) < 16
            then recorded (nodeList s) else (recorded (nodeList s))(nid \<mapsto> idx))"
proof (cases "findNode nid (entries (nodeList s))")
  case (Some i)
  let ?es = "entries (nodeList s)"
  have i: "i < length ?es" "nodeId (?es ! i) = nid" using findNode_Some [OF Some] by simp_all
  have d: "distinct (map nodeId ?es)" using assms by (simp add: wellFormed_def)
  have "map_of (map (\<lambda>e. (nodeId e, boardIndex e)) (?es[i := (?es ! i)\<lparr>boardIndex := idx\<rparr>]))
          = (map_of (map (\<lambda>e. (nodeId e, boardIndex e)) ?es))(nid \<mapsto> idx)"
    using map_of_update_entry [OF i(1) d, of idx] i(2) by simp
  then show ?thesis using Some
    by (simp add: recorded_def register_known(2) [OF assms Some] recorded_None [unfolded recorded_def])
next
  case None
  show ?thesis
  proof (cases "count (nodeList s) < 16")
    case True
    show ?thesis using None True
      by (simp add: recorded_def register_new(1) [OF assms None True]
            recorded_None [unfolded recorded_def] map_add_single)
  next
    case False
    then show ?thesis using None by (simp add: register_full [OF None False] recorded_None)
  qed
qed

lemma wellFormed_registerAll:
  "wellFormed (nodeList s) \<Longrightarrow> wellFormed (nodeList (registerAll calls s))"
  unfolding registerAll_def
  by (induction calls arbitrary: s) (auto simp: wellFormed_register)

lemma registerAll_snoc:
  "registerAll (calls @ [(nid, idx)]) s = registerNode nid idx (registerAll calls s)"
  by (simp add: registerAll_def)

lemma recorded_registerAll:
  assumes "wellFormed (nodeList s)"
  shows "recorded (nodeList (registerAll calls s)) nid \<noteq> None \<Longrightarrow>
         recorded (nodeList (registerAll calls s)) nid =
           (case map_of (rev calls) nid of Some p \<Rightarrow> Some p | None \<Rightarrow> recorded (nodeList s) nid)"
proof (induction calls rule: rev_induct)
  case Nil
  then show ?case by (simp add: registerAll_def)
next
  case (snoc c calls)
  obtain n p where c: "c = (n, p)" by (cases c)
  let ?s' = "registerAll calls s"
  have wf: "wellFormed (nodeList ?s')" by (rule wellFormed_registerAll [OF assms])
  note rr = recorded_register [OF wf, of n p]
  show ?case
  proof (cases "n = nid")
    case True
    then show ?thesis using snoc.prems c rr
      by (auto simp: registerAll_snoc split: if_splits)
  next
    case False
    then have "recorded (nodeList (registerAll (calls @ [c]) s)) nid = recorded (nodeList ?s') nid"
      using c rr by (auto simp: registerAll_snoc split: if_splits)
    then show ?thesis using snoc False c by simp
  qed
qed

text \<open>
  Claim C7. Start from an empty registry and make any sequence of \<^verbatim>\<open>registerNode\<close>
  calls. Then the live identities are pairwise distinct and there are at most 16 of
  them. An identity the registry holds has the position of its most recent call, and
  registering it once more keeps the count and the order of identities and changes the
  recorded position of that identity alone. When all 16 slots are taken, a call with
  an identity the registry does not hold returns the board as it was.
\<close>

theorem registry_invariants:
  assumes "count (nodeList s0) = 0" and "length (nodes (nodeList s0)) = 16"
  shows "let s = registerAll calls s0; nl = nodeList s in
     distinct (map nodeId (entries nl)) \<and> length (entries nl) = unat (count nl)
     \<and> unat (count nl) \<le> 16
     \<and> (recorded nl nid \<noteq> None \<longrightarrow>
           recorded nl nid = map_of (rev calls) nid
           \<and> count (nodeList (registerNode nid idx s)) = count nl
           \<and> map nodeId (entries (nodeList (registerNode nid idx s))) = map nodeId (entries nl)
           \<and> recorded (nodeList (registerNode nid idx s)) = (recorded nl)(nid \<mapsto> idx))
     \<and> (recorded nl nid = None \<and> unat (count nl) = 16 \<longrightarrow> registerNode nid idx s = s)"
proof -
  let ?s = "registerAll calls s0"
  let ?nl = "nodeList ?s"
  have wf0: "wellFormed (nodeList s0)"
    using assms by (simp add: wellFormed_def entries_def)
  have wf: "wellFormed ?nl" by (rule wellFormed_registerAll [OF wf0])
  have r0: "recorded (nodeList s0) nid = None"
    using assms by (simp add: recorded_def entries_def)
  have a: "distinct (map nodeId (entries ?nl))" "unat (count ?nl) \<le> 16"
    using wf by (simp_all add: wellFormed_def)
  have b: "length (entries ?nl) = unat (count ?nl)" by (rule length_entries [OF wf])
  have c: "recorded ?nl nid = map_of (rev calls) nid" if "recorded ?nl nid \<noteq> None"
    using recorded_registerAll [OF wf0 that] that r0 by (simp split: option.splits)
  have d: "count (nodeList (registerNode nid idx ?s)) = count ?nl
           \<and> map nodeId (entries (nodeList (registerNode nid idx ?s))) = map nodeId (entries ?nl)"
    if "recorded ?nl nid \<noteq> None"
  proof -
    have "findNode nid (entries ?nl) \<noteq> None"
      using that by (simp add: recorded_None)
    then obtain i where i: "findNode nid (entries ?nl) = Some i"
      by (cases "findNode nid (entries ?nl)") simp_all
    have "i < length (entries ?nl)" "nodeId (entries ?nl ! i) = nid"
      using findNode_Some [OF i] by simp_all
    then have "map nodeId (entries (nodeList (registerNode nid idx ?s))) = map nodeId (entries ?nl)"
      by (simp add: register_known(2) [OF wf i] map_update list_update_same_conv)
    moreover have "count (nodeList (registerNode nid idx ?s)) = count ?nl"
      by (simp add: register_known(1) [OF wf i])
    ultimately show ?thesis by simp
  qed
  have e: "recorded (nodeList (registerNode nid idx ?s)) = (recorded ?nl)(nid \<mapsto> idx)"
    if "recorded ?nl nid \<noteq> None"
    using that by (auto simp: recorded_register [OF wf])
  have f: "registerNode nid idx ?s = ?s" if "recorded ?nl nid = None" "unat (count ?nl) = 16"
  proof -
    have "\<not> count ?nl < 16" using that(2) by (simp add: word_less_nat_alt)
    then show ?thesis using that(1) by (simp add: register_full recorded_None)
  qed
  show ?thesis unfolding Let_def using a b c d e f by blast
qed

theorem registry_invariants_witness:
  "count (nodeList (bootBoard 7 0)) = 0 \<and> length (nodes (nodeList (bootBoard 7 0))) = 16
   \<and> recorded (nodeList (registerAll fullCalls (bootBoard 7 0))) 103 = Some 9
   \<and> count (nodeList (registerNode 103 4 (registerAll fullCalls (bootBoard 7 0)))) = 16
   \<and> recorded (nodeList (registerNode 103 4 (registerAll fullCalls (bootBoard 7 0)))) 103 = Some 4
   \<and> recorded (nodeList (registerAll fullCalls (bootBoard 7 0))) 55 = None
   \<and> registerNode 55 4 (registerAll fullCalls (bootBoard 7 0))
       = registerAll fullCalls (bootBoard 7 0)"
proof -
  let ?s = "registerAll fullCalls (bootBoard 7 0)"
  have h: "count (nodeList (bootBoard 7 0)) = 0" "length (nodes (nodeList (bootBoard 7 0))) = 16"
    by (simp_all add: bootBoard_def)
  have known: "recorded (nodeList ?s) 103 = Some 9" by code_simp
  have full: "recorded (nodeList ?s) 55 = None" "unat (count (nodeList ?s)) = 16"
    by code_simp+
  have c16: "count (nodeList ?s) = 16" by code_simp
  show ?thesis
    using registry_invariants [OF h, of fullCalls 103 4]
      registry_invariants [OF h, of fullCalls 55 4] h known full c16
    by (simp add: Let_def)
qed

text \<open>
  Claim C8. A \<^verbatim>\<open>registerNode\<close> call admits a new identity when the registry does not
  hold it and a slot is free. If discovery is done, the board is at position 0 and the
  call admits a new identity, the call writes one REMAP_REQUEST frame (AA 00 05 05),
  sets the pending-remap flag and clears the health flag. In every other case
  (a known identity, a full registry, discovery not done, a position other than 0) it
  writes nothing and leaves both flags as they were.
\<close>

theorem new_node_remap:
  "let s' = registerNode nid idx s;
       new = (recorded (nodeList s) nid = None \<and> count (nodeList s) < 16)
   in if discoveryDone s \<and> new \<and> myBoardIndex s = 0
      then out s' = out s @ map Wire [0xAA, 0, RS485_REMAP_REQUEST_MSG, 0x05]
           \<and> remapRequested s' \<and> \<not> networkHealthy s'
      else out s' = out s \<and> remapRequested s' = remapRequested s
           \<and> networkHealthy s' = networkHealthy s"
  by (simp add: registerNode_def Let_def recorded_None rs485SendPacket_def frameBytes_def
        consts_defs split: option.splits)

lemma callback_rx:
  "onRemoteNoteOn note vel (s\<lparr>rx := r\<rparr>) = (onRemoteNoteOn note vel s)\<lparr>rx := r\<rparr>"
  "onRemoteNoteOff note (s\<lparr>rx := r\<rparr>) = (onRemoteNoteOff note s)\<lparr>rx := r\<rparr>"
  by (simp_all add: onRemoteNoteOn_def onRemoteNoteOff_def setKeyLedBase_def
        keyIndexFromNote_def Let_def)

lemma callback_out:
  "out (onRemoteNoteOn note vel s)
     = out s @ [StartRipple note vel, MidiSendNoteOn note vel, SynthNoteOn note vel]"
  "out (onRemoteNoteOff note s) = out s @ [MidiSendNoteOff note 0, SynthNoteOff note]"
  by (simp_all add: onRemoteNoteOn_def onRemoteNoteOff_def setKeyLedBase_def Let_def)

text \<open>
  Claim C10. \<^verbatim>\<open>handleNotePacket\<close> returns the board unchanged when the identity in
  the payload is the board's own. For a whole NOTE frame off the wire (seven payload
  bytes, arriving while the parser seeks a start byte): with the board's own identity
  nothing but the parser's staging record changes and no callback runs; with any
  other identity the board is what \<^verbatim>\<open>onRemoteNoteOn\<close> makes of it when the on/off byte
  is non-zero and what \<^verbatim>\<open>onRemoteNoteOff\<close> makes of it otherwise, again with the
  parser's staging record changed. Each callback leaves its calls to the ripple, MIDI
  and synth code in the output, so a board whose output is unchanged has run neither.
\<close>

theorem note_from_self_discarded:
  assumes "state (rx s) = 0" "length (buf (rx s)) = 32" "length payload = 7"
  shows "(readId p = myNodeId s \<longrightarrow> handleNotePacket p n s = s) \<and>
     processRs485 (frameBytes RS485_NOTE_MSG payload 7) s =
       (if readId payload = myNodeId s then s
        else if payload ! 6 \<noteq> 0 then onRemoteNoteOn (payload ! 4) (payload ! 5) s
        else onRemoteNoteOff (payload ! 4) s)
       \<lparr>rx := (loaded RS485_NOTE_MSG payload (rx s))\<lparr>state := 0\<rparr>\<rparr>
     \<and> out (onRemoteNoteOn note vel s)
         = out s @ [StartRipple note vel, MidiSendNoteOn note vel, SynthNoteOn note vel]
     \<and> out (onRemoteNoteOff note s) = out s @ [MidiSendNoteOff note 0, SynthNoteOff note]"
proof -
  have ne: "payload \<noteq> []" "length payload \<le> 32" using assms(3) by auto
  have n: "(7 :: u8) = of_nat (length payload)" using assms(3) by simp
  let ?r = "loaded RS485_NOTE_MSG payload (rx s)"
  have id: "readId (buf ?r) = readId payload" "buf ?r ! 4 = payload ! 4"
    "buf ?r ! 5 = payload ! 5" "buf ?r ! 6 = payload ! 6"
    using assms(3) by (simp_all add: readId_def loaded_def nth_append)
  have hd: "type ?r = RS485_NOTE_MSG" "len ?r = 7" using assms(3) by (simp_all add: loaded_def)
  have "processRs485 (frameBytes RS485_NOTE_MSG payload 7) s =
           (let s1 = dispatch (s\<lparr>rx := ?r\<rparr>) in s1\<lparr>rx := (rx s1)\<lparr>state := 0\<rparr>\<rparr>)"
    unfolding n by (rule rx_good_frame [OF assms(1,2) ne])
  also have "dispatch (s\<lparr>rx := ?r\<rparr>) =
       (if readId payload = myNodeId s then s
        else if payload ! 6 \<noteq> 0 then onRemoteNoteOn (payload ! 4) (payload ! 5) s
        else onRemoteNoteOff (payload ! 4) s)\<lparr>rx := ?r\<rparr>"
  proof -
    have "dispatch (s\<lparr>rx := ?r\<rparr>) = handleNotePacket (buf ?r) 7 (s\<lparr>rx := ?r\<rparr>)"
      using hd by (simp add: dispatch_def Let_def consts_defs)
    also have "\<dots> = (if readId payload = myNodeId s then s
        else if payload ! 6 \<noteq> 0 then onRemoteNoteOn (payload ! 4) (payload ! 5) s
        else onRemoteNoteOff (payload ! 4) s)\<lparr>rx := ?r\<rparr>"
      by (simp add: handleNotePacket_def id callback_rx)
    finally show ?thesis .
  qed
  finally have frame: "processRs485 (frameBytes RS485_NOTE_MSG payload 7) s =
       (if readId payload = myNodeId s then s
        else if payload ! 6 \<noteq> 0 then onRemoteNoteOn (payload ! 4) (payload ! 5) s
        else onRemoteNoteOff (payload ! 4) s)\<lparr>rx := ?r\<lparr>state := 0\<rparr>\<rparr>"
    by (simp add: Let_def)
  have own: "readId p = myNodeId s \<longrightarrow> handleNotePacket p n s = s"
    by (simp add: handleNotePacket_def)
  show ?thesis
    using own frame callback_out(1) [of "note" vel s] callback_out(2) [of "note" s] by blast
qed

text \<open>
  On a freshly booted board with identity 0x11223344 (base note 48): a note-on for
  note 60 at velocity 100 that carries the board's own identity changes neither the
  key velocities nor the output; the same note from identity 0x55667788 sets the
  velocity of key 17 (offset 12) to 100 and leaves the three calls in the output.
\<close>

theorem note_from_self_discarded_witness:
  "state (rx (bootBoard 0x11223344 0)) = 0 \<and> length (buf (rx (bootBoard 0x11223344 0))) = 32
   \<and> length (idBytes 0x11223344 @ [60, 100, 1]) = 7
   \<and> readId (idBytes 0x11223344 @ [60, 100, 1]) = myNodeId (bootBoard 0x11223344 0)
   \<and> processRs485 (frameBytes RS485_NOTE_MSG (idBytes 0x11223344 @ [60, 100, 1]) 7)
         (bootBoard 0x11223344 0)
       = (bootBoard 0x11223344 0)
           \<lparr>rx := (loaded RS485_NOTE_MSG (idBytes 0x11223344 @ [60, 100, 1])
                     (rx (bootBoard 0x11223344 0)))\<lparr>state := 0\<rparr>\<rparr>
   \<and> length (idBytes 0x55667788 @ [60, 100, 1]) = 7
   \<and> readId (idBytes 0x55667788 @ [60, 100, 1]) \<noteq> myNodeId (bootBoard 0x11223344 0)
   \<and> keyBaseVelocity
         (processRs485 (frameBytes RS485_NOTE_MSG (idBytes 0x55667788 @ [60, 100, 1]) 7)
            (bootBoard 0x11223344 0)) ! 17 = 100
   \<and> out (processRs485 (frameBytes RS485_NOTE_MSG (idBytes 0x55667788 @ [60, 100, 1]) 7)
            (bootBoard 0x11223344 0))
       = [StartRipple 60 100, MidiSendNoteOn 60 100, SynthNoteOn 60 100]"
proof -
  let ?b = "bootBoard 0x11223344 0"
  let ?own = "idBytes 0x11223344 @ [60, 100, 1]"
  let ?far = "idBytes 0x55667788 @ [60, 100, 1]"
  have h: "state (rx ?b) = 0" "length (buf (rx ?b)) = 32"
    by (simp_all add: bootBoard_def rx0_def)
  have l: "length ?own = 7" "length ?far = 7" by (simp_all add: idBytes_def)
  have own: "readId ?own = myNodeId ?b" by code_simp
  have far: "readId ?far \<noteq> myNodeId ?b" "?far ! 6 \<noteq> 0" "?far ! 4 = 60" "?far ! 5 = 100"
    by code_simp+
  have k: "keyBaseVelocity (onRemoteNoteOn 60 100 ?b) ! 17 = 100" by code_simp
  have o: "out (onRemoteNoteOn 60 100 ?b)
             = [StartRipple 60 100, MidiSendNoteOn 60 100, SynthNoteOn 60 100]"
    by code_simp
  have a: "processRs485 (frameBytes RS485_NOTE_MSG ?own 7) ?b
             = ?b\<lparr>rx := (loaded RS485_NOTE_MSG ?own (rx ?b))\<lparr>state := 0\<rparr>\<rparr>"
    using note_from_self_discarded [OF h l(1)] own by simp
  have b: "processRs485 (frameBytes RS485_NOTE_MSG ?far 7) ?b
             = (onRemoteNoteOn 60 100 ?b)\<lparr>rx := (loaded RS485_NOTE_MSG ?far (rx ?b))\<lparr>state := 0\<rparr>\<rparr>"
    using note_from_self_discarded [OF h l(2)] far by simp
  show ?thesis unfolding b using h l own far(1) a k o by simp
qed

subsection \<open>Chain discovery\<close>

lemma Max_insert_below:
  "finite A \<Longrightarrow> a \<in> A \<Longrightarrow> (b::nat) \<le> a \<Longrightarrow> Max (insert b A) = Max A"
  by (metis Max_ge Max_insert empty_iff max.absorb2 order_trans)

lemma fold_max_index:
  "m0 \<noteq> 0xFF \<Longrightarrow>
   unat (fold (\<lambda>e m. if boardIndex e \<noteq> 0xFF \<and> boardIndex e > m then boardIndex e else m) es m0)
     = Max (set (unat m0 # map (\<lambda>e. unat (boardIndex e)) (filter (\<lambda>e. boardIndex e \<noteq> 0xFF) es)))
   \<and> fold (\<lambda>e m. if boardIndex e \<noteq> 0xFF \<and> boardIndex e > m then boardIndex e else m) es m0 \<noteq> 0xFF"
proof (induction es arbitrary: m0)
  case Nil
  then show ?case by simp
next
  case (Cons e es)
  let ?S = "set (map (\<lambda>e. unat (boardIndex e)) (filter (\<lambda>e. boardIndex e \<noteq> 0xFF) es))"
  have fin: "finite ?S" by simp
  show ?case
  proof (cases "boardIndex e \<noteq> 0xFF \<and> boardIndex e > m0")
    case True
    then have lt: "unat m0 \<le> unat (boardIndex e)" by (simp add: word_less_nat_alt)
    have "Max (insert (unat m0) (insert (unat (boardIndex e)) ?S))
            = Max (insert (unat (boardIndex e)) ?S)"
      using lt fin by (intro Max_insert_below) simp_all
    then show ?thesis using True Cons.IH [of "boardIndex e"] by simp
  next
    case False
    show ?thesis
    proof (cases "boardIndex e = 0xFF")
      case True
      then show ?thesis using Cons.IH [OF Cons.prems] by simp
    next
      case ne: False
      then have le: "unat (boardIndex e) \<le> unat m0" using False by (simp add: word_less_nat_alt)
      have "Max (insert (unat (boardIndex e)) (insert (unat m0) ?S)) = Max (insert (unat m0) ?S)"
        using le fin by (intro Max_insert_below) simp_all
      then show ?thesis using False ne Cons.IH [OF Cons.prems] by (simp add: insert_commute)
    qed
  qed
qed

lemma maxKnownIndex_eq:
  "unat (maxKnownIndex s) =
     Max (set (unat (if myBoardIndex s = 0xFF then 0 else myBoardIndex s)
               # map (\<lambda>e. unat (boardIndex e))
                   (filter (\<lambda>e. boardIndex e \<noteq> 0xFF) (entries (nodeList s)))))"
  "maxKnownIndex s \<noteq> 0xFF"
  unfolding maxKnownIndex_def
  using fold_max_index [of "if myBoardIndex s = 0xFF then 0 else myBoardIndex s" "entries (nodeList s)"]
  by simp_all

lemma maxKnownIndex_succ: "unat (maxKnownIndex s + 1) = Suc (unat (maxKnownIndex s))"
proof -
  have "unat (maxKnownIndex s) \<noteq> 255"
    using maxKnownIndex_eq(2) [of s] by (simp add: word_unat_eq_iff)
  moreover have "unat (maxKnownIndex s) < 256" using unsigned_less [of "maxKnownIndex s"] by simp
  ultimately show ?thesis by (simp add: unat_word_ariths)
qed

lemma registerNode_keeps:
  "discoveryDone (registerNode a i s) = discoveryDone s"
  "myNodeId (registerNode a i s) = myNodeId s"
  "myBoardIndex (registerNode a i s) = myBoardIndex s"
  by (simp_all add: registerNode_def rs485SendPacket_def Let_def)

lemma dispatch_keeps:
  "discoveryDone (dispatch s) = discoveryDone s"
  "myNodeId (dispatch s) = myNodeId s"
  "myBoardIndex (dispatch s) = myBoardIndex s"
  by (simp_all add: dispatch_def handleAnnouncePacket_def note_defs
        handlePingPacket_def handlePingReplyPacket_def handleRemapRequestPacket_def
        rs485SendPacket_def registerNode_keeps Let_def split: option.splits)

lemma processByte_keeps:
  "discoveryDone (processByte b s) = discoveryDone s"
  "myNodeId (processByte b s) = myNodeId s"
  "myBoardIndex (processByte b s) = myBoardIndex s"
  by (simp_all add: processByte_def dispatch_keeps Let_def)

lemma processRs485_keeps:
  "discoveryDone (processRs485 bytes s) = discoveryDone s"
  "myNodeId (processRs485 bytes s) = myNodeId s"
  "myBoardIndex (processRs485 bytes s) = myBoardIndex s"
  unfolding processRs485_def
  by (induction bytes arbitrary: s) (simp_all add: processByte_keeps)

lemma sendIdAnnounce_quiet:
  assumes "\<not> discoveryDone s"
  shows "out (sendIdAnnounce idx s) =
           out s @ map Wire (frameBytes RS485_ANNOUNCE_MSG (idBytes (myNodeId s) @ [idx]) 5)"
    and "myBoardIndex (sendIdAnnounce idx s) = myBoardIndex s"
    and "nodeList (sendIdAnnounce idx s) = nodeList (registerNode (myNodeId s) idx s)"
  using assms
  by (simp_all add: sendIdAnnounce_def registerNode_def rs485SendPacket_def Let_def)

text \<open>
  Claim C1. During a run (discovery not done), take a turn of the wait loop in which
  the left pin was high at the previous sample and is low now, and in which the board
  still has the marker 0xFF as its index after the receive poll. Then the new index is
  one more than the largest index in the registry, where 0 stands in when the registry
  has none; an entry whose index is the marker 0xFF carries no position and is not
  counted. The sum does not wrap. The board writes one ANNOUNCE frame with its
  identity and the new index, registers itself, and drives the right pin low and high
  again.
\<close>

theorem edge_assigns_next_position:
  assumes "\<not> discoveryDone s" "leftPrev = HIGH" "leftNow t = LOW"
    and "myBoardIndex (processRs485 (rxBytes t) s) = 0xFF"
  shows "let s1 = processRs485 (rxBytes t) s;
             s' = discoveryBody t leftPrev s;
             known = filter (\<lambda>e. boardIndex e \<noteq> 0xFF) (entries (nodeList s1))
         in unat (myBoardIndex s') = Suc (Max (set (0 # map (\<lambda>e. unat (boardIndex e)) known)))
            \<and> out s' = out s1
                 @ map Wire (frameBytes RS485_ANNOUNCE_MSG
                               (idBytes (myNodeId s) @ [myBoardIndex s']) 5)
                 @ [NeighborRight LOW, NeighborRight HIGH]
            \<and> nodeList s' = nodeList (registerNode (myNodeId s) (myBoardIndex s') s1)"
proof -
  let ?s1 = "processRs485 (rxBytes t) s"
  let ?new = "maxKnownIndex ?s1 + 1"
  let ?s2 = "?s1\<lparr>myBoardIndex := ?new\<rparr>"
  have nd: "\<not> discoveryDone ?s2" using assms(1) by (simp add: processRs485_keeps)
  have body: "discoveryBody t leftPrev s = pulseRightNeighbor (sendIdAnnounce ?new ?s2)"
    using assms by (simp add: discoveryBody_def Let_def)
  have idx: "myBoardIndex (discoveryBody t leftPrev s) = ?new"
    unfolding body by (simp add: pulseRightNeighbor_def sendIdAnnounce_quiet(2) [OF nd])
  have val: "unat ?new = Suc (Max (set (0 # map (\<lambda>e. unat (boardIndex e))
                 (filter (\<lambda>e. boardIndex e \<noteq> 0xFF) (entries (nodeList ?s1))))))"
    using assms(4) by (simp add: maxKnownIndex_succ maxKnownIndex_eq(1))
  have outp: "out (discoveryBody t leftPrev s) = out ?s1
                 @ map Wire (frameBytes RS485_ANNOUNCE_MSG (idBytes (myNodeId s) @ [?new]) 5)
                 @ [NeighborRight LOW, NeighborRight HIGH]"
    unfolding body
    by (simp add: pulseRightNeighbor_def sendIdAnnounce_quiet(1) [OF nd] processRs485_keeps)
  have reg: "nodeList (discoveryBody t leftPrev s) = nodeList (registerNode (myNodeId s) ?new ?s1)"
    unfolding body using assms(1)
    by (simp add: pulseRightNeighbor_def sendIdAnnounce_quiet(3) [OF nd] processRs485_keeps
          registerNode_def Let_def)
  show ?thesis unfolding Let_def using idx val outp reg by simp
qed

theorem edge_assigns_next_position_witness:
  "\<not> discoveryDone (beginDiscovery (chainEnv 1) (bootBoard 0x101 0))
   \<and> leftNow edgeTick = LOW
   \<and> myBoardIndex (processRs485 (rxBytes edgeTick)
                      (beginDiscovery (chainEnv 1) (bootBoard 0x101 0))) = 0xFF
   \<and> myBoardIndex (discoveryBody edgeTick HIGH
                      (beginDiscovery (chainEnv 1) (bootBoard 0x101 0))) = 1
   \<and> out (discoveryBody edgeTick HIGH (beginDiscovery (chainEnv 1) (bootBoard 0x101 0)))
       = [NeighborRight LOW, NeighborRight HIGH] @ map Wire (announceBytes 0x101 1)
           @ [NeighborRight LOW, NeighborRight HIGH]"
proof -
  let ?s = "beginDiscovery (chainEnv 1) (bootBoard 0x101 0)"
  let ?s1 = "processRs485 (rxBytes edgeTick) ?s"
  have h: "\<not> discoveryDone ?s" "HIGH = HIGH" "leftNow edgeTick = LOW" "myBoardIndex ?s1 = 0xFF"
    by code_simp+
  have known: "map (\<lambda>e. unat (boardIndex e))
                 (filter (\<lambda>e. boardIndex e \<noteq> 0xFF) (entries (nodeList ?s1))) = [0]"
    by code_simp
  have o: "out ?s1 = [NeighborRight LOW, NeighborRight HIGH]" "myNodeId ?s = 0x101"
    by code_simp+
  note th = edge_assigns_next_position [OF h, unfolded Let_def known]
  have "unat (myBoardIndex (discoveryBody edgeTick HIGH ?s)) = 1"
    using th by simp
  then have idx: "myBoardIndex (discoveryBody edgeTick HIGH ?s) = 1"
    by (simp add: word_unat_eq_iff)
  have "out (discoveryBody edgeTick HIGH ?s) = out ?s1
          @ map Wire (frameBytes RS485_ANNOUNCE_MSG (idBytes (myNodeId ?s) @ [1]) 5)
          @ [NeighborRight LOW, NeighborRight HIGH]"
    using th unfolding idx by blast
  then show ?thesis
    using h idx unfolding o announceBytes_def by simp
qed

lemma discoveryLoop_returns:
  "list_ex (\<lambda>t. \<not> nowTop t - t0 < DISCOVERY_MAX_MS) ts \<Longrightarrow>
   \<exists>sl. discoveryLoop t0 ts lp s = Some sl"
  by (induction ts arbitrary: lp s) (auto simp: Let_def)

lemma finishDiscovery_fields:
  "myBoardIndex (finishDiscovery s) = (if myBoardIndex s = 0xFF then 0 else myBoardIndex s)"
  "totalBoards (finishDiscovery s) = maxKnownIndex s + 1"
  "boardBaseNote (finishDiscovery s) =
     GLOBAL_BASE_NOTE + myBoardIndex (finishDiscovery s) * BOARD_NOTE_SPAN"
  "nodeList (finishDiscovery s) = nodeList s"
  "remapRequested (finishDiscovery s) = remapRequested s"
  "discoveryDone (finishDiscovery s)" "\<not> isRemapping (finishDiscovery s)"
  "networkHealthy (finishDiscovery s)"
  by (simp_all add: finishDiscovery_def Let_def)

lemma base_note_value:
  "unat (GLOBAL_BASE_NOTE + i * BOARD_NOTE_SPAN)
     = (unat GLOBAL_BASE_NOTE + unat i * unat BOARD_NOTE_SPAN) mod 256"
  by (simp add: unat_word_ariths consts_defs mod_simps)

text \<open>
  Claim C2, as amended. If the clock shows the budget used up at some turn, the run
  returns. The wait loop ends in a board \<open>sl\<close>, and the result is
  \<open>finishDiscovery sl\<close>: a board that still had the marker 0xFF gets position 0; the
  board count is one more than the largest of the board's own position and the
  registry's positions (entries with the marker 0xFF are not counted); and the base
  note is the 8-bit value of 48 + position * 24, that is the sum modulo 256, which is
  the sum itself for every position up to 8.
\<close>

theorem discovery_completion:
  assumes "list_ex (\<lambda>t. \<not> nowTop t - tStart env < DISCOVERY_MAX_MS) (ticks env)"
  shows "\<exists>sl. discoveryLoop (tStart env) (ticks env) (leftAtStart env) (beginDiscovery env s)
               = Some sl
     \<and> startDiscovery env s = Some (finishDiscovery sl)
     \<and> myBoardIndex (finishDiscovery sl) = (if myBoardIndex sl = 0xFF then 0 else myBoardIndex sl)
     \<and> unat (totalBoards (finishDiscovery sl))
         = Suc (Max (set (unat (myBoardIndex (finishDiscovery sl))
                          # map (\<lambda>e. unat (boardIndex e))
                              (filter (\<lambda>e. boardIndex e \<noteq> 0xFF)
                                 (entries (nodeList (finishDiscovery sl)))))))
     \<and> unat (boardBaseNote (finishDiscovery sl))
         = (unat GLOBAL_BASE_NOTE
              + unat (myBoardIndex (finishDiscovery sl)) * unat BOARD_NOTE_SPAN) mod 256
     \<and> (unat (myBoardIndex (finishDiscovery sl)) \<le> 8 \<longrightarrow>
          unat (boardBaseNote (finishDiscovery sl))
            = unat GLOBAL_BASE_NOTE
                + unat (myBoardIndex (finishDiscovery sl)) * unat BOARD_NOTE_SPAN)"
proof -
  obtain sl where sl: "discoveryLoop (tStart env) (ticks env) (leftAtStart env)
                         (beginDiscovery env s) = Some sl"
    using discoveryLoop_returns [OF assms] by blast
  let ?s' = "finishDiscovery sl"
  have run: "startDiscovery env s = Some ?s'" by (simp add: startDiscovery_def sl)
  have idx: "myBoardIndex ?s' = (if myBoardIndex sl = 0xFF then 0 else myBoardIndex sl)"
    by (rule finishDiscovery_fields(1))
  have tot: "unat (totalBoards ?s') = Suc (Max (set (unat (myBoardIndex ?s')
                          # map (\<lambda>e. unat (boardIndex e))
                              (filter (\<lambda>e. boardIndex e \<noteq> 0xFF) (entries (nodeList ?s'))))))"
    by (simp only: finishDiscovery_fields(1,2,4) maxKnownIndex_succ maxKnownIndex_eq(1))
  have base: "unat (boardBaseNote ?s')
         = (unat GLOBAL_BASE_NOTE + unat (myBoardIndex ?s') * unat BOARD_NOTE_SPAN) mod 256"
    by (simp only: finishDiscovery_fields(3) base_note_value)
  have small: "unat (boardBaseNote ?s')
         = unat GLOBAL_BASE_NOTE + unat (myBoardIndex ?s') * unat BOARD_NOTE_SPAN"
    if "unat (myBoardIndex ?s') \<le> 8"
    using that unfolding base by (simp add: consts_defs)
  show ?thesis using sl run idx tot base small by blast
qed

theorem discovery_completion_witness:
  "list_ex (\<lambda>t. \<not> nowTop t - tStart (chainEnv 2) < DISCOVERY_MAX_MS) (ticks (chainEnv 2))
   \<and> map_option myBoardIndex (startDiscovery (chainEnv 2) (bootBoard 0x102 0)) = Some 2
   \<and> map_option totalBoards (startDiscovery (chainEnv 2) (bootBoard 0x102 0)) = Some 3
   \<and> map_option (\<lambda>s. unat (boardBaseNote s)) (startDiscovery (chainEnv 2) (bootBoard 0x102 0))
       = Some 96"
proof -
  have h: "list_ex (\<lambda>t. \<not> nowTop t - tStart (chainEnv 2) < DISCOVERY_MAX_MS) (ticks (chainEnv 2))"
    by code_simp
  have idx: "map_option myBoardIndex (startDiscovery (chainEnv 2) (bootBoard 0x102 0)) = Some 2"
    and tot: "map_option totalBoards (startDiscovery (chainEnv 2) (bootBoard 0x102 0)) = Some 3"
    by code_simp+
  obtain sl where run: "startDiscovery (chainEnv 2) (bootBoard 0x102 0) = Some (finishDiscovery sl)"
    and base: "unat (myBoardIndex (finishDiscovery sl)) \<le> 8 \<longrightarrow>
          unat (boardBaseNote (finishDiscovery sl))
            = unat GLOBAL_BASE_NOTE
                + unat (myBoardIndex (finishDiscovery sl)) * unat BOARD_NOTE_SPAN"
    using discovery_completion [OF h, of "bootBoard 0x102 0"] by blast
  have "myBoardIndex (finishDiscovery sl) = 2" using idx run by simp
  then have "unat (boardBaseNote (finishDiscovery sl)) = 96"
    using base by (simp add: consts_defs)
  then show ?thesis using h idx tot run by simp
qed

text \<open>
  The tenth board of a chain: it hears the ANNOUNCE frames of positions 0 to 8, takes
  position 9 on the pulse of its left neighbour, and ends with base note 8, not
  48 + 9 * 24 = 264.
\<close>

theorem base_note_wraps_counterexample:
  "map_option myBoardIndex (startDiscovery (chainEnv 9) (bootBoard 0x109 0)) = Some 9
   \<and> map_option boardBaseNote (startDiscovery (chainEnv 9) (bootBoard 0x109 0)) = Some 8
   \<and> map_option
         (\<lambda>s. unat (boardBaseNote s)
                = unat GLOBAL_BASE_NOTE + unat (myBoardIndex s) * unat BOARD_NOTE_SPAN)
         (startDiscovery (chainEnv 9) (bootBoard 0x109 0)) = Some False"
  by code_simp

subsection \<open>A remap request during a discovery run\<close>

lemma pendingForm_fields:
  "myBoardIndex (pendingForm s) = myBoardIndex s"
  "rx (pendingForm s) = rx s"
  "pendingForm (pendingForm s) = pendingForm s"
  "pendingForm (s\<lparr>rx := r\<rparr>) = (pendingForm s)\<lparr>rx := r\<rparr>"
  "pendingForm (s\<lparr>myBoardIndex := i\<rparr>) = (pendingForm s)\<lparr>myBoardIndex := i\<rparr>"
  by (simp_all add: pendingForm_def)

lemma registerNode_pending:
  "pendingForm (registerNode a i (pendingForm s)) = pendingForm (registerNode a i s)"
proof (cases "findNode a (entries (nodeList s))")
  case None
  then show ?thesis
    by (cases "count (nodeList s) < RS485_MAX_NODES")
       (simp_all add: pendingForm_def registerNode_def rs485SendPacket_def Let_def)
next
  case (Some k)
  then show ?thesis
    by (simp add: pendingForm_def registerNode_def Let_def)
qed

lemma dispatch_pending:
  "pendingForm (dispatch (pendingForm s)) = pendingForm (dispatch s)"
proof -
  have a: "pendingForm (handleAnnouncePacket p n (pendingForm s)) = pendingForm (handleAnnouncePacket p n s)"
    for p n by (simp add: handleAnnouncePacket_def registerNode_pending pendingForm_fields)
  have b: "pendingForm (handleNotePacket p n (pendingForm s)) = pendingForm (handleNotePacket p n s)"
    for p n by (simp add: note_defs pendingForm_def Let_def)
  have c: "pendingForm (handlePingPacket p n (pendingForm s)) = pendingForm (handlePingPacket p n s)"
    for p n by (simp add: handlePingPacket_def rs485SendPacket_def pendingForm_def)
  have d: "pendingForm (handlePingReplyPacket p n (pendingForm s)) = pendingForm (handlePingReplyPacket p n s)"
    for p n by (simp add: handlePingReplyPacket_def pendingForm_def split: option.splits)
  have e: "pendingForm (handleRemapRequestPacket p n (pendingForm s)) = pendingForm (handleRemapRequestPacket p n s)"
    for p n by (simp add: handleRemapRequestPacket_def pendingForm_def)
  show ?thesis
    by (simp add: dispatch_def Let_def pendingForm_fields(2,3) a b c d e)
qed

lemma registerNode_rx: "rx (registerNode a i s) = rx s"
  by (simp add: registerNode_def rs485SendPacket_def Let_def)

lemma dispatch_rx: "rx (dispatch s) = rx s"
  by (simp add: dispatch_def handleAnnouncePacket_def note_defs
        handlePingPacket_def handlePingReplyPacket_def handleRemapRequestPacket_def
        rs485SendPacket_def registerNode_rx Let_def split: option.splits)

lemma processByte_pending:
  "pendingForm (processByte b (pendingForm s)) = pendingForm (processByte b s)"
proof -
  consider "state (rx s) = 0" | "state (rx s) = 1" | "state (rx s) = 2" | "state (rx s) = 3"
    | "state (rx s) = 4" | "state (rx s) \<notin> {0, 1, 2, 3, 4}" by auto
  then show ?thesis
  proof cases
    case 5
    have "pendingForm (dispatch (pendingForm s))\<lparr>rx := (rx s)\<lparr>state := 0\<rparr>\<rparr>
            = pendingForm (dispatch s)\<lparr>rx := (rx s)\<lparr>state := 0\<rparr>\<rparr>"
      by (simp only: dispatch_pending)
    then show ?thesis using 5
      by (simp add: processByte_def pendingForm_fields dispatch_rx)
  qed (simp_all add: processByte_def Let_def pendingForm_fields)
qed

lemma processRs485_pending:
  "pendingForm (processRs485 bytes (pendingForm s)) = pendingForm (processRs485 bytes s)"
  unfolding processRs485_def
proof (induction bytes arbitrary: s)
  case Nil
  then show ?case by (simp add: pendingForm_fields)
next
  case (Cons b bytes)
  have "pendingForm (fold processByte bytes (processByte b (pendingForm s)))
          = pendingForm (fold processByte bytes (pendingForm (processByte b (pendingForm s))))"
    by (simp only: Cons.IH)
  also have "\<dots> = pendingForm (fold processByte bytes (pendingForm (processByte b s)))"
    by (simp only: processByte_pending)
  also have "\<dots> = pendingForm (fold processByte bytes (processByte b s))"
    by (simp only: Cons.IH)
  finally show ?case by simp
qed

lemma maxKnownIndex_pending: "maxKnownIndex (pendingForm s) = maxKnownIndex s"
  by (simp add: maxKnownIndex_def pendingForm_def)

lemma sendIdAnnounce_pending:
  "pendingForm (sendIdAnnounce i (pendingForm s)) = pendingForm (sendIdAnnounce i s)"
proof -
  have "rs485SendPacket ty p n (pendingForm s) = pendingForm (rs485SendPacket ty p n s)" for ty p n
    by (simp add: rs485SendPacket_def pendingForm_def)
  moreover have "myNodeId (pendingForm s) = myNodeId s" by (simp add: pendingForm_def)
  ultimately show ?thesis by (simp add: sendIdAnnounce_def registerNode_pending)
qed

lemma pulse_pending: "pendingForm (pulseRightNeighbor s) = pulseRightNeighbor (pendingForm s)"
  by (simp add: pulseRightNeighbor_def pendingForm_def)

lemma discoveryBody_pending:
  "pendingForm (discoveryBody t lp (pendingForm s)) = pendingForm (discoveryBody t lp s)"
proof -
  let ?a = "processRs485 (rxBytes t) (pendingForm s)"
  let ?b = "processRs485 (rxBytes t) s"
  have eq: "pendingForm ?a = pendingForm ?b" by (rule processRs485_pending)
  have idx: "myBoardIndex ?a = myBoardIndex ?b"
    using arg_cong [OF eq, of myBoardIndex] by (simp add: pendingForm_fields)
  have mx: "maxKnownIndex ?a = maxKnownIndex ?b"
    using arg_cong [OF eq, of maxKnownIndex] by (simp add: maxKnownIndex_pending)
  have "pendingForm (sendIdAnnounce i (?a\<lparr>myBoardIndex := i\<rparr>))
          = pendingForm (sendIdAnnounce i (?b\<lparr>myBoardIndex := i\<rparr>))" for i
  proof -
    have "pendingForm (sendIdAnnounce i (?a\<lparr>myBoardIndex := i\<rparr>))
            = pendingForm (sendIdAnnounce i (pendingForm (?a\<lparr>myBoardIndex := i\<rparr>)))"
      by (simp only: sendIdAnnounce_pending)
    also have "\<dots> = pendingForm (sendIdAnnounce i (pendingForm (?b\<lparr>myBoardIndex := i\<rparr>)))"
      by (simp only: pendingForm_fields(5) eq)
    finally show ?thesis by (simp only: sendIdAnnounce_pending)
  qed
  then show ?thesis
    by (simp add: discoveryBody_def Let_def idx mx eq pulse_pending)
qed

lemma discoveryLoop_pending:
  "map_option pendingForm (discoveryLoop t0 ts lp (pendingForm s))
     = map_option pendingForm (discoveryLoop t0 ts lp s)"
proof (induction ts arbitrary: lp s)
  case Nil
  then show ?case by simp
next
  case (Cons t ts)
  let ?a = "discoveryBody t lp (pendingForm s)"
  let ?b = "discoveryBody t lp s"
  have eq: "pendingForm ?a = pendingForm ?b" by (rule discoveryBody_pending)
  have idx: "myBoardIndex ?a = myBoardIndex ?b"
    using arg_cong [OF eq, of myBoardIndex] by (simp add: pendingForm_fields)
  have "map_option pendingForm (discoveryLoop t0 ts (leftNow t) ?a)
          = map_option pendingForm (discoveryLoop t0 ts (leftNow t) ?b)"
    using Cons.IH [of "leftNow t" ?a] Cons.IH [of "leftNow t" ?b] eq by simp
  then show ?case by (simp add: Let_def idx eq pendingForm_fields(3))
qed

lemma registerNode_pending_kept: "remapRequested s \<Longrightarrow> remapRequested (registerNode a i s)"
  by (simp add: registerNode_def rs485SendPacket_def Let_def)

lemma dispatch_pending_kept: "remapRequested s \<Longrightarrow> remapRequested (dispatch s)"
  by (simp add: dispatch_def handleAnnouncePacket_def note_defs
        handlePingPacket_def handlePingReplyPacket_def handleRemapRequestPacket_def
        rs485SendPacket_def registerNode_pending_kept Let_def split: option.splits)

lemma processByte_pending_kept: "remapRequested s \<Longrightarrow> remapRequested (processByte b s)"
  by (simp add: processByte_def dispatch_pending_kept Let_def)

lemma processRs485_pending_kept: "remapRequested s \<Longrightarrow> remapRequested (processRs485 bytes s)"
  unfolding processRs485_def
  by (induction bytes arbitrary: s) (simp_all add: processByte_pending_kept)

lemma discoveryBody_pending_kept: "remapRequested s \<Longrightarrow> remapRequested (discoveryBody t lp s)"
  by (simp add: discoveryBody_def Let_def pulseRightNeighbor_def sendIdAnnounce_def
        rs485SendPacket_def registerNode_pending_kept processRs485_pending_kept)

lemma discoveryLoop_pending_kept:
  "remapRequested s \<Longrightarrow> discoveryLoop t0 ts lp s = Some sl \<Longrightarrow> remapRequested sl"
proof (induction ts arbitrary: lp s)
  case Nil
  then show ?case by simp
next
  case (Cons t ts)
  have b: "remapRequested (discoveryBody t lp s)"
    by (rule discoveryBody_pending_kept [OF Cons.prems(1)])
  show ?case
    using Cons.prems Cons.IH [OF b] b by (auto simp: Let_def split: if_splits)
qed

lemma finishDiscovery_pending:
  "(finishDiscovery (pendingForm s))\<lparr>remapRequested := r\<rparr> = (finishDiscovery s)\<lparr>remapRequested := r\<rparr>"
  by (simp add: finishDiscovery_def Let_def maxKnownIndex_pending pendingForm_fields(1))
     (simp add: pendingForm_def)

text \<open>
  The checksum byte of a REMAP_REQUEST frame: in state 4 with type 5 and a matching
  running checksum, the byte makes the handler run, which sets the two flags; the
  parser goes back to state 0 as it does for a frame it drops.
\<close>

lemma processByte_remap:
  assumes "state (rx s) = 4" "type (rx s) = RS485_REMAP_REQUEST_MSG" "checksum (rx s) = b"
  shows "processByte b s = pendingForm (s\<lparr>rx := (rx s)\<lparr>state := 0\<rparr>\<rparr>)"
  using assms
  by (simp add: processByte_def dispatch_def handleRemapRequestPacket_def pendingForm_def
        consts_defs)

lemma discoveryBody_split:
  assumes "rxBytes t = pre @ b # post"
  shows "discoveryBody t lp s
           = discoveryBody (t\<lparr>rxBytes := post\<rparr>) lp (processByte b (processRs485 pre s))"
  using assms by (simp add: discoveryBody_def processRs485_def)

lemma discoveryLoop_split:
  assumes "rxBytes t = pre @ b # post" "nowTop t - t0 < DISCOVERY_MAX_MS"
  shows "discoveryLoop t0 (t # ts) lp s
           = discoveryLoop t0 (t\<lparr>rxBytes := post\<rparr> # ts) lp
               (processByte b (processRs485 pre s))"
  using assms(2) by (simp add: discoveryBody_split [OF assms(1)] Let_def)

text \<open>
  Claim C5, as amended. Take a turn of the wait loop, within the budget, whose bytes
  bring the parser to the checksum byte of a REMAP_REQUEST frame (state 4, type 5, the
  next byte equal to the running checksum), so that the handler runs during the run.
  The run is neither restarted nor aborted: it ends where it would end if that frame
  had been dropped at its checksum byte, and the finished board is the same but for
  the pending-remap flag. That flag is set when the run is done, since nothing in
  \<^verbatim>\<open>startDiscovery\<close> clears it. The next pass of the main loop therefore clears the
  flag and calls \<^verbatim>\<open>startDiscovery\<close> again. Which bytes on the bus bring the parser to
  that point is not part of this statement (for zero-length frames see C4).
\<close>

theorem remap_during_discovery:
  assumes "rxBytes t = pre @ b # post" "nowTop t - t0 < DISCOVERY_MAX_MS"
    and "state (rx (processRs485 pre s)) = 4"
    and "type (rx (processRs485 pre s)) = RS485_REMAP_REQUEST_MSG"
    and "checksum (rx (processRs485 pre s)) = b"
    and "discoveryLoop t0 (t # ts) lp s = Some sl"
  shows "(\<exists>sl0. discoveryLoop t0 (t\<lparr>rxBytes := post\<rparr> # ts) lp
                   ((processRs485 pre s)\<lparr>rx := (rx (processRs485 pre s))\<lparr>state := 0\<rparr>\<rparr>)
                 = Some sl0
            \<and> finishDiscovery sl = (finishDiscovery sl0)\<lparr>remapRequested := True\<rparr>)
     \<and> remapRequested (finishDiscovery sl) \<and> discoveryDone (finishDiscovery sl)
     \<and> \<not> isRemapping (finishDiscovery sl)
     \<and> loopIter e (finishDiscovery sl) =
         (case startDiscovery (discovery e) ((finishDiscovery sl)\<lparr>remapRequested := False\<rparr>) of
            None \<Rightarrow> None
          | Some s1 \<Rightarrow>
              Some (healthMonitor (clockMs e) (pingClockMs e) (processRs485 (rxNow e) s1)))"
proof -
  let ?m = "processRs485 pre s"
  let ?d = "?m\<lparr>rx := (rx ?m)\<lparr>state := 0\<rparr>\<rparr>"
  let ?t = "t\<lparr>rxBytes := post\<rparr>"
  have run: "discoveryLoop t0 (?t # ts) lp (pendingForm ?d) = Some sl"
    using assms(6)
    unfolding discoveryLoop_split [OF assms(1,2)] processByte_remap [OF assms(3-5)] .
  have "remapRequested (pendingForm ?d)" by (simp add: pendingForm_def)
  then have pend: "remapRequested sl" by (rule discoveryLoop_pending_kept [OF _ run])
  have "map_option pendingForm (discoveryLoop t0 (?t # ts) lp ?d) = Some (pendingForm sl)"
    using discoveryLoop_pending [of t0 "?t # ts" lp ?d] run by simp
  then obtain sl0 where sl0: "discoveryLoop t0 (?t # ts) lp ?d = Some sl0"
    "pendingForm sl0 = pendingForm sl"
    by auto
  have "finishDiscovery sl = (finishDiscovery sl)\<lparr>remapRequested := True\<rparr>"
    using pend by (simp add: finishDiscovery_def Let_def)
  also have "\<dots> = (finishDiscovery (pendingForm sl))\<lparr>remapRequested := True\<rparr>"
    by (simp only: finishDiscovery_pending)
  also have "\<dots> = (finishDiscovery sl0)\<lparr>remapRequested := True\<rparr>"
    by (simp only: sl0(2) [symmetric] finishDiscovery_pending)
  finally have same: "finishDiscovery sl = (finishDiscovery sl0)\<lparr>remapRequested := True\<rparr>" .
  have fin: "remapRequested (finishDiscovery sl)"
    using pend by (simp add: finishDiscovery_fields)
  show ?thesis
    using sl0(1) same fin by (simp add: loopIter_def finishDiscovery_fields)
qed

text \<open>
  A downstream board (identity 0x101) in its wait loop when \<open>remapTraffic\<close> arrives. The
  REMAP_REQUEST frame leaves the parser waiting for a checksum byte; the start byte of
  the ANNOUNCE frame is taken as that byte and dropped; the identity bytes AA 00 05 05
  then read as a second zero-length REMAP_REQUEST, and the position byte 00 of the
  ANNOUNCE is its matching checksum byte.
\<close>

theorem remap_during_discovery_witness:
  "rxBytes (hd (ticks (busEnv remapTraffic)))
     = (remapFrame @ take 7 (announceBytes 0x050500AA 0)) @ 0 # [0xAE]
   \<and> nowTop (hd (ticks (busEnv remapTraffic))) - 10 < DISCOVERY_MAX_MS
   \<and> state (rx (processRs485 (remapFrame @ take 7 (announceBytes 0x050500AA 0))
                   (beginDiscovery (busEnv remapTraffic) (bootBoard 0x101 0)))) = 4
   \<and> type (rx (processRs485 (remapFrame @ take 7 (announceBytes 0x050500AA 0))
                   (beginDiscovery (busEnv remapTraffic) (bootBoard 0x101 0))))
       = RS485_REMAP_REQUEST_MSG
   \<and> checksum (rx (processRs485 (remapFrame @ take 7 (announceBytes 0x050500AA 0))
                   (beginDiscovery (busEnv remapTraffic) (bootBoard 0x101 0)))) = 0
   \<and> map_option remapRequested (startDiscovery (busEnv remapTraffic) (bootBoard 0x101 0))
       = Some True
   \<and> map_option discoveryDone (startDiscovery (busEnv remapTraffic) (bootBoard 0x101 0))
       = Some True"
proof -
  let ?env = "busEnv remapTraffic"
  let ?s = "beginDiscovery ?env (bootBoard 0x101 0)"
  let ?pre = "remapFrame @ take 7 (announceBytes 0x050500AA 0)"
  let ?run = "discoveryLoop 10 (hd (ticks ?env) # tl (ticks ?env)) HIGH ?s"
  have h: "rxBytes (hd (ticks ?env)) = ?pre @ 0 # [0xAE]"
    "nowTop (hd (ticks ?env)) - 10 < DISCOVERY_MAX_MS"
    "state (rx (processRs485 ?pre ?s)) = 4"
    "type (rx (processRs485 ?pre ?s)) = RS485_REMAP_REQUEST_MSG"
    "checksum (rx (processRs485 ?pre ?s)) = 0"
    by code_simp+
  have eq: "discoveryLoop (tStart ?env) (ticks ?env) (leftAtStart ?env) ?s = ?run"
    by code_simp
  have "?run = Some (the ?run)" by code_simp
  then obtain v where v: "?run = Some v" by blast
  have whole: "startDiscovery ?env (bootBoard 0x101 0) = Some (finishDiscovery v)"
    by (simp only: startDiscovery_def eq v option.map)
  show ?thesis
    using remap_during_discovery [OF h v] h unfolding whole by simp
qed

text \<open>
  Two runs of a downstream board that receive the REMAP_REQUEST frame as the firmware
  sends it. In the first (\<open>remapTraffic\<close>, as above) the handler runs and the run ends
  done with the request still pending. In the second the frame stands between the
  ANNOUNCE frames of positions 0 and 1: it takes the start byte of the second ANNOUNCE,
  that ANNOUNCE is lost, and the board takes position 1; without the frame it takes
  position 2.
\<close>

theorem remap_stays_pending_counterexample:
  "map_option remapRequested (startDiscovery (busEnv remapTraffic) (bootBoard 0x101 0))
     = Some True
   \<and> map_option discoveryDone (startDiscovery (busEnv remapTraffic) (bootBoard 0x101 0))
       = Some True
   \<and> map_option isRemapping (startDiscovery (busEnv remapTraffic) (bootBoard 0x101 0))
       = Some False
   \<and> map_option myBoardIndex
         (startDiscovery
            (busEnv (announceBytes 0x100 0 @ remapFrame @ announceBytes 0x101 1))
            (bootBoard 0x102 0)) = Some 1
   \<and> map_option myBoardIndex
         (startDiscovery (busEnv (announceBytes 0x100 0 @ announceBytes 0x101 1))
            (bootBoard 0x102 0)) = Some 2"
  by code_simp

subsection \<open>The ping cycle\<close>

text \<open>
  Claim C3. Take a board at position 0 that counts more than one board, is awaiting
  replies, and reads a clock more than 200 ms past the start of the window. The ping
  block then closes the cycle. If every live registry slot has its reply flag set, it
  marks the network healthy and writes nothing. Otherwise it marks the network
  unhealthy, sets the pending-remap flag and writes one REMAP_REQUEST frame
  (AA 00 05 05). With the cycle closed, the next pass of the block either does
  nothing or starts a new cycle with a PING.
\<close>

theorem ping_window_expiry:
  assumes "myBoardIndex s = 0" "totalBoards s > 1" "awaitingPingReplies s"
    and "nowMs - pingStartMs s > PING_TIMEOUT_MS"
  shows "let s' = healthMonitor nowMs pingNow s in
     \<not> awaitingPingReplies s' \<and>
     (if list_all (\<lambda>r. r) (take (unat (count (nodeList s))) (pingReceived s))
      then networkHealthy s' \<and> out s' = out s \<and> remapRequested s' = remapRequested s
      else \<not> networkHealthy s' \<and> remapRequested s'
           \<and> out s' = out s @ map Wire [0xAA, 0, RS485_REMAP_REQUEST_MSG, 0x05])
     \<and> (healthMonitor n2 p2 s' = s'
          \<or> healthMonitor n2 p2 s' = (sendPing p2 s')\<lparr>lastPingMs := n2\<rparr>)"
proof -
  let ?s' = "healthMonitor nowMs pingNow s"
  have m: "replyMissing s = (\<not> list_all (\<lambda>r. r) (take (unat (count (nodeList s))) (pingReceived s)))"
    by (simp add: replyMissing_def list_ex_iff list_all_iff)
  have a: "\<not> awaitingPingReplies ?s' \<and>
     (if list_all (\<lambda>r. r) (take (unat (count (nodeList s))) (pingReceived s))
      then networkHealthy ?s' \<and> out ?s' = out s \<and> remapRequested ?s' = remapRequested s
      else \<not> networkHealthy ?s' \<and> remapRequested ?s'
           \<and> out ?s' = out s @ map Wire [0xAA, 0, RS485_REMAP_REQUEST_MSG, 0x05])"
    using assms
    by (simp add: healthMonitor_def Let_def m rs485SendPacket_def frameBytes_def consts_defs)
  then have "\<not> awaitingPingReplies ?s'" by simp
  then have b: "healthMonitor n2 p2 ?s' = ?s'
          \<or> healthMonitor n2 p2 ?s' = (sendPing p2 ?s')\<lparr>lastPingMs := n2\<rparr>"
    by (simp add: healthMonitor_def [of n2 p2])
  show ?thesis unfolding Let_def using a b by blast
qed

theorem ping_window_expiry_witness:
  "myBoardIndex waitingBoard = 0 \<and> totalBoards waitingBoard > 1
   \<and> awaitingPingReplies waitingBoard \<and> 1201 - pingStartMs waitingBoard > PING_TIMEOUT_MS
   \<and> \<not> networkHealthy (healthMonitor 1201 1201 waitingBoard)
   \<and> remapRequested (healthMonitor 1201 1201 waitingBoard)
   \<and> out (healthMonitor 1201 1201 waitingBoard)
       = out waitingBoard @ map Wire [0xAA, 0, 0x05, 0x05]
   \<and> myBoardIndex repliedBoard = 0 \<and> totalBoards repliedBoard > 1
   \<and> awaitingPingReplies repliedBoard \<and> 1201 - pingStartMs repliedBoard > PING_TIMEOUT_MS
   \<and> networkHealthy (healthMonitor 1201 1201 repliedBoard)
   \<and> out (healthMonitor 1201 1201 repliedBoard) = out repliedBoard"
proof -
  have w: "myBoardIndex waitingBoard = 0" "totalBoards waitingBoard > 1"
    "awaitingPingReplies waitingBoard" "1201 - pingStartMs waitingBoard > PING_TIMEOUT_MS"
    by code_simp+
  have r: "myBoardIndex repliedBoard = 0" "totalBoards repliedBoard > 1"
    "awaitingPingReplies repliedBoard" "1201 - pingStartMs repliedBoard > PING_TIMEOUT_MS"
    by code_simp+
  have fw: "\<not> list_all (\<lambda>r. r)
              (take (unat (count (nodeList waitingBoard))) (pingReceived waitingBoard))"
    by code_simp
  have fr: "list_all (\<lambda>r. r)
              (take (unat (count (nodeList repliedBoard))) (pingReceived repliedBoard))"
    by code_simp
  show ?thesis
    using ping_window_expiry [OF w, of 1201 0 0] ping_window_expiry [OF r, of 1201 0 0] w r fw fr
    by (simp add: Let_def consts_defs)
qed

end
